theory Spec2Isabelle
  imports Main "HOL-Library.Char_ord" "HOL-Library.List_Lexorder"
begin

section \<open>Python and library primitives used by the sources\<close>

text \<open>
  The exceptions the modelled code can raise. A function of the sources that can raise
  returns \<open>error + 'a\<close>, with \<open>Inl\<close> for the exception.
\<close>

datatype error = IndexError | KeyError | AssertionError | ValueError | AttributeError
  | TypeError | RuntimeError

text \<open>Running a fallible function over a list, stopping at the first exception.\<close>

fun map_err :: "('a \<Rightarrow> error + 'b) \<Rightarrow> 'a list \<Rightarrow> error + 'b list" where
  "map_err f [] = Inr []"
| "map_err f (x # xs) =
     (case f x of
        Inl e \<Rightarrow> Inl e
      | Inr y \<Rightarrow> (case map_err f xs of Inl e \<Rightarrow> Inl e | Inr ys \<Rightarrow> Inr (y # ys)))"

text \<open>
  Python's \<open>sorted\<close>: a stable sort that only uses \<open><\<close>. The element inserted
  goes before the first element that is not smaller than it, and \<open>foldr\<close> inserts from
  the right, so equal elements keep their order.
\<close>

fun insort_by :: "('a \<Rightarrow> 'a \<Rightarrow> bool) \<Rightarrow> 'a \<Rightarrow> 'a list \<Rightarrow> 'a list" where
  "insort_by lt x [] = [x]"
| "insort_by lt x (y # ys) = (if lt y x then y # insort_by lt x ys else x # y # ys)"

definition py_sorted :: "('a \<Rightarrow> 'a \<Rightarrow> bool) \<Rightarrow> 'a list \<Rightarrow> 'a list" where
  "py_sorted lt xs = foldr (insort_by lt) xs []"

text \<open>
  Python's \<open>max\<close>: the first maximal element of a non-empty sequence; an element
  replaces the running best only when it is strictly greater.
\<close>

definition py_max :: "('a \<Rightarrow> 'a \<Rightarrow> bool) \<Rightarrow> 'a list \<Rightarrow> 'a" where
  "py_max gt xs = foldl (\<lambda>best x. if gt x best then x else best) (hd xs) (tl xs)"

section \<open>trees.py: nodes, rules\<close>

text \<open>
  Offsets are integers; the two sentinels use the floats \<open>-inf\<close> and \<open>inf\<close>.
\<close>

datatype offset = NegInf | Fin int | PosInf

fun offset_less :: "offset \<Rightarrow> offset \<Rightarrow> bool" where
  "offset_less NegInf NegInf = False"
| "offset_less NegInf (Fin b) = True"
| "offset_less NegInf PosInf = True"
| "offset_less (Fin a) NegInf = False"
| "offset_less (Fin a) (Fin b) = (a < b)"
| "offset_less (Fin a) PosInf = True"
| "offset_less PosInf y = False"

definition offset_le :: "offset \<Rightarrow> offset \<Rightarrow> bool" where
  "offset_le x y \<longleftrightarrow> x = y \<or> offset_less x y"

text \<open>\<open>s2 - e1 > 1\<close> in float arithmetic: \<open>inf - inf\<close> is \<open>nan\<close>, which compares false.\<close>

fun gap_gt_one :: "offset \<Rightarrow> offset \<Rightarrow> bool" where
  "gap_gt_one (Fin s2) (Fin e1) = (s2 - e1 > 1)"
| "gap_gt_one PosInf (Fin e1) = True"
| "gap_gt_one PosInf NegInf = True"
| "gap_gt_one PosInf PosInf = False"
| "gap_gt_one (Fin s2) NegInf = True"
| "gap_gt_one (Fin s2) PosInf = False"
| "gap_gt_one NegInf e1 = False"

type_synonym span = "offset \<times> offset"

text \<open>Tuples compare lexicographically.\<close>

definition span_less :: "span \<Rightarrow> span \<Rightarrow> bool" where
  "span_less p q \<longleftrightarrow> offset_less (fst p) (fst q) \<or> (fst p = fst q \<and> offset_less (snd p) (snd q))"

record node =
  span :: span
  name :: string
  weight :: int

text \<open>\<open>Node(span, name, weight = 1)\<close>.\<close>

definition Node :: "span \<Rightarrow> string \<Rightarrow> node" where
  "Node sp nm = \<lparr>span = sp, name = nm, weight = 1\<rparr>"

definition node_start :: "node \<Rightarrow> offset" where
  "node_start n = fst (span n)"

definition node_end :: "node \<Rightarrow> offset" where
  "node_end n = snd (span n)"

text \<open>
  \<open>__eq__\<close> and \<open>__hash__\<close> read \<open>(span, name)\<close> only; \<open>__lt__\<close> and \<open>__gt__\<close>
  compare the spans.
\<close>

definition node_eq :: "node \<Rightarrow> node \<Rightarrow> bool" where
  "node_eq x y \<longleftrightarrow> span x = span y \<and> name x = name y"

definition node_lt :: "node \<Rightarrow> node \<Rightarrow> bool" where
  "node_lt x y \<longleftrightarrow> span_less (span x) (span y)"

definition node_gt :: "node \<Rightarrow> node \<Rightarrow> bool" where
  "node_gt x y \<longleftrightarrow> span_less (span y) (span x)"

definition START :: node where
  "START = Node (NegInf, NegInf) ''START''"

definition END :: node where
  "END = Node (PosInf, PosInf) ''END''"

record rule =
  lhs :: string
  rhs :: "string list"
  rule_weight :: int

text \<open>\<open>Rule(lhs, rhs, weight = None)\<close>: the weight defaults to \<open>len(rhs)\<close>.\<close>

definition Rule :: "string \<Rightarrow> string list \<Rightarrow> int option \<Rightarrow> rule" where
  "Rule l r w =
     \<lparr>lhs = l, rhs = r, rule_weight = (case w of None \<Rightarrow> int (length r) | Some x \<Rightarrow> x)\<rparr>"

section \<open>networkx 1.x: DiGraph\<close>

text \<open>
  A \<open>DiGraph\<close> keeps its nodes and, per node, its successors and predecessors in
  dictionaries, which iterate in insertion order. The model keeps the nodes in insertion
  order and the edges in insertion order; the successors of a node are the targets of its
  edges in that order. Keys are compared with \<open>node_eq\<close>, and a dictionary keeps the
  key object it saw first.
\<close>

record digraph =
  g_nodes :: "node list"
  g_edges :: "(node \<times> node) list"

definition DiGraph :: digraph where
  "DiGraph = \<lparr>g_nodes = [], g_edges = []\<rparr>"

definition has_node :: "digraph \<Rightarrow> node \<Rightarrow> bool" where
  "has_node g n = list_ex (node_eq n) (g_nodes g)"

definition has_edge :: "digraph \<Rightarrow> node \<Rightarrow> node \<Rightarrow> bool" where
  "has_edge g u v = list_ex (\<lambda>e. node_eq (fst e) u \<and> node_eq (snd e) v) (g_edges g)"

definition add_node :: "node \<Rightarrow> digraph \<Rightarrow> digraph" where
  "add_node n g = (if has_node g n then g else g\<lparr>g_nodes := g_nodes g @ [n]\<rparr>)"

definition add_nodes_from :: "node list \<Rightarrow> digraph \<Rightarrow> digraph" where
  "add_nodes_from ns g = fold add_node ns g"

definition add_edge :: "node \<Rightarrow> node \<Rightarrow> digraph \<Rightarrow> digraph" where
  "add_edge u v g =
     (let g2 = add_node v (add_node u g)
      in if has_edge g2 u v then g2 else g2\<lparr>g_edges := g_edges g2 @ [(u, v)]\<rparr>)"

definition add_edges_from :: "(node \<times> node) list \<Rightarrow> digraph \<Rightarrow> digraph" where
  "add_edges_from es g = fold (\<lambda>e. add_edge (fst e) (snd e)) es g"

text \<open>
  \<open>remove_edge\<close> raises when the edge is missing; both call sites of the sources remove
  an edge they have just read from the graph, so the model is the removal only.
\<close>

definition remove_edge :: "node \<Rightarrow> node \<Rightarrow> digraph \<Rightarrow> digraph" where
  "remove_edge u v g =
     g\<lparr>g_edges := filter (\<lambda>e. \<not> (node_eq (fst e) u \<and> node_eq (snd e) v)) (g_edges g)\<rparr>"

text \<open>\<open>remove_nodes_from\<close> skips a node the graph does not have.\<close>

definition remove_node :: "node \<Rightarrow> digraph \<Rightarrow> digraph" where
  "remove_node n g =
     \<lparr>g_nodes = filter (\<lambda>m. \<not> node_eq m n) (g_nodes g),
      g_edges = filter (\<lambda>e. \<not> node_eq (fst e) n \<and> \<not> node_eq (snd e) n) (g_edges g)\<rparr>"

definition remove_nodes_from :: "node list \<Rightarrow> digraph \<Rightarrow> digraph" where
  "remove_nodes_from ns g = fold remove_node ns g"

definition successors :: "digraph \<Rightarrow> node \<Rightarrow> node list" where
  "successors g n = map snd (filter (\<lambda>e. node_eq (fst e) n) (g_edges g))"

definition predecessors :: "digraph \<Rightarrow> node \<Rightarrow> node list" where
  "predecessors g n = map fst (filter (\<lambda>e. node_eq (snd e) n) (g_edges g))"

text \<open>
  \<open>nx.descendants\<close> and \<open>nx.ancestors\<close>: the nodes other than the source that a path
  from (to) the source reaches. One round adds the neighbours of the nodes found so far;
  as many rounds as the graph has nodes find them all.
\<close>

definition member_eq :: "node list \<Rightarrow> node \<Rightarrow> bool" where
  "member_eq ns n = list_ex (node_eq n) ns"

definition grow :: "(node \<Rightarrow> node list) \<Rightarrow> node list \<Rightarrow> node list" where
  "grow next found =
     fold (\<lambda>n acc. if member_eq acc n then acc else acc @ [n]) (concat (map next found)) found"

definition descendants :: "digraph \<Rightarrow> node \<Rightarrow> node list" where
  "descendants g s =
     filter (\<lambda>n. \<not> node_eq n s) ((grow (successors g) ^^ length (g_nodes g)) [s])"

definition ancestors :: "digraph \<Rightarrow> node \<Rightarrow> node list" where
  "ancestors g s =
     filter (\<lambda>n. \<not> node_eq n s) ((grow (predecessors g) ^^ length (g_nodes g)) [s])"

section \<open>numpy matrices\<close>

text \<open>
  Boolean matrices are lists of rows. \<open>np.where\<close> of a vector gives the indices of its
  true entries, of a matrix the index pairs in row-major order.
\<close>

definition np_where :: "bool list \<Rightarrow> nat list" where
  "np_where row = filter (\<lambda>k. row ! k) [0..<length row]"

definition np_where2 :: "bool list list \<Rightarrow> (nat \<times> nat) list" where
  "np_where2 m = concat (map (\<lambda>r. map (\<lambda>c. (r, c)) (np_where (m ! r))) [0..<length m])"

text \<open>
  Matrices of path lengths hold floats; \<open>None\<close> is \<open>inf\<close>.
\<close>

type_synonym dist = "nat option"

fun dist_add :: "dist \<Rightarrow> dist \<Rightarrow> dist" where
  "dist_add (Some x) (Some y) = Some (x + y)"
| "dist_add _ _ = None"

fun dist_min :: "dist \<Rightarrow> dist \<Rightarrow> dist" where
  "dist_min (Some x) (Some y) = Some (min x y)"
| "dist_min (Some x) None = Some x"
| "dist_min None d = d"

text \<open>
  \<open>nx.to_numpy_matrix(G, nodelist, nonedge)\<close>: the edges of the sources carry no weight
  attribute, so an edge is the entry 1 and a missing edge the entry \<open>nonedge\<close>.
\<close>

definition to_numpy_matrix :: "digraph \<Rightarrow> node list \<Rightarrow> dist \<Rightarrow> dist list list" where
  "to_numpy_matrix g nodelist nonedge =
     map (\<lambda>u. map (\<lambda>v. if has_edge g u v then Some 1 else nonedge) nodelist) nodelist"

text \<open>
  \<open>nx.floyd_warshall_numpy\<close> (networkx 1.x): the matrix of shortest path lengths.
  \<^verbatim>\<open>
    A = nx.to_numpy_matrix(G, nodelist=nodelist, multigraph_weight=min,
                           weight=weight, nonedge=np.inf)
    n,m = A.shape
    I = np.identity(n)
    A[I==1] = 0 # diagonal elements should be zero
    for i in range(n):
        A = np.minimum(A, A[i,:] + A[:,i])
    return A
  \<close>
\<close>

definition fw_step :: "nat \<Rightarrow> nat \<Rightarrow> dist list list \<Rightarrow> dist list list" where
  "fw_step n i A =
     map (\<lambda>r. map (\<lambda>c. dist_min (A ! r ! c) (dist_add (A ! i ! c) (A ! r ! i))) [0..<n]) [0..<n]"

definition floyd_warshall_numpy :: "digraph \<Rightarrow> node list \<Rightarrow> dist list list" where
  "floyd_warshall_numpy g nodelist =
     (let A = to_numpy_matrix g nodelist None;
          n = length A;
          A0 = map (\<lambda>r. map (\<lambda>c. if r = c then Some 0 else A ! r ! c) [0..<n]) [0..<n]
      in fold (fw_step n) [0..<n] A0)"

text \<open>The product of two square boolean matrices (\<open>@\<close>): an or of ands.\<close>

definition bool_matmul :: "bool list list \<Rightarrow> bool list list \<Rightarrow> bool list list" where
  "bool_matmul A B =
     map (\<lambda>r. map (\<lambda>c. list_ex (\<lambda>k. A ! r ! k \<and> B ! k ! c) [0..<length A]) [0..<length A])
       [0..<length A]"

definition mat_zip :: "(bool \<Rightarrow> bool \<Rightarrow> bool) \<Rightarrow> bool list list \<Rightarrow> bool list list \<Rightarrow> bool list list" where
  "mat_zip f A B = map (\<lambda>r. map (\<lambda>c. f (A ! r ! c) (B ! r ! c)) [0..<length A]) [0..<length A]"

section \<open>trees.py: building the graph of a document\<close>

type_synonym document = "(string \<times> (int \<times> int) list) list"

definition get_dense_mapping :: "document \<Rightarrow> (int \<times> nat) list \<times> int list" where
  "get_dense_mapping rows =
     (let starts = remdups (concat (map (\<lambda>kv. map fst (snd kv)) rows));
          ends = remdups (concat (map (\<lambda>kv. map snd (snd kv)) rows));
          keys = sort (remdups (starts @ ends));
          mapping = zip keys [0..<length keys];
          reverse_mapping = map fst (py_sorted (\<lambda>p q. fst p < fst q) mapping)
      in (mapping, reverse_mapping))"

text \<open>
  One row of \<open>b_rows\<close>: \<open>x = np.zeros(len(reverse_mapping) - 1)\<close> and then
  \<open>x[mapping[a]: mapping[b]] = 1\<close>.
\<close>

definition dense_row :: "(int \<times> nat) list \<Rightarrow> nat \<Rightarrow> int \<times> int \<Rightarrow> error + bool list" where
  "dense_row mapping n ab =
     (case map_of mapping (fst ab) of
        None \<Rightarrow> Inl KeyError
      | Some i \<Rightarrow>
          (case map_of mapping (snd ab) of
             None \<Rightarrow> Inl KeyError
           | Some j \<Rightarrow> Inr (map (\<lambda>k. i \<le> k \<and> k < j) [0..<n - 1])))"

text \<open>\<open>wh = np.where(row)[0]\<close>, then \<open>wh[0]\<close> and \<open>wh[-1]\<close>: an empty \<open>wh\<close> raises.\<close>

definition first_last :: "bool list \<Rightarrow> error + (nat \<times> nat)" where
  "first_last row = (let wh = np_where row in if wh = [] then Inl IndexError else Inr (hd wh, last wh))"

definition get_dense_matrix :: "document \<Rightarrow> error + bool list list" where
  "get_dense_matrix rows =
     (let mapping = fst (get_dense_mapping rows);
          reverse_mapping = snd (get_dense_mapping rows)
      in case map_err (dense_row mapping (length reverse_mapping)) (concat (map snd rows)) of
           Inl e \<Rightarrow> Inl e
         | Inr b_rows \<Rightarrow>
             (case map_err first_last b_rows of
                Inl e \<Rightarrow> Inl e
              | Inr fl \<Rightarrow>
                  (let start_index = map fst fl;
                       end_index = map snd fl
                   in Inr (map (\<lambda>idx. map (\<lambda>s. s > idx) start_index) end_index))))"

definition get_elementary_nodes :: "document \<Rightarrow> node list" where
  "get_elementary_nodes rows =
     concat (map (\<lambda>kv. map (\<lambda>ab. Node (Fin (fst ab), Fin (snd ab)) (fst kv)) (snd kv)) rows)"

text \<open>The data frame: one record per row, columns \<open>n1 s1 e1 n2 s2 e2 a b\<close>.\<close>

record df_row =
  col_n1 :: string
  col_s1 :: offset
  col_e1 :: offset
  col_n2 :: string
  col_s2 :: offset
  col_e2 :: offset
  col_a :: nat
  col_b :: nat

definition matrix_to_dataframe :: "bool list list \<Rightarrow> node list \<Rightarrow> df_row list" where
  "matrix_to_dataframe res items =
     map (\<lambda>ab. \<lparr>col_n1 = name (items ! fst ab),
                col_s1 = node_start (items ! fst ab),
                col_e1 = node_end (items ! fst ab),
                col_n2 = name (items ! snd ab),
                col_s2 = node_start (items ! snd ab),
                col_e2 = node_end (items ! snd ab),
                col_a = fst ab, col_b = snd ab\<rparr>)
       (np_where2 res)"

text \<open>
  pandas: \<open>groupby\<close> visits the groups in the sorted order of their keys and keeps the
  rows of a group in their order; \<open>min\<close> of a column.
\<close>

definition group_keys :: "('k \<Rightarrow> 'k \<Rightarrow> bool) \<Rightarrow> ('r \<Rightarrow> 'k) \<Rightarrow> 'r list \<Rightarrow> 'k list" where
  "group_keys lt f xs = py_sorted lt (remdups (map f xs))"

definition offset_min :: "offset list \<Rightarrow> offset" where
  "offset_min xs = foldl (\<lambda>m x. if offset_less x m then x else m) (hd xs) (tl xs)"

text \<open>
  \<^verbatim>\<open>
    fixed = df.groupby('e1').apply(lambda x: x.groupby('n2').apply(lambda y: y[y.s2 <= y.e2.min()]))
  \<close>
  A frame with no rows has no column \<open>s2\<close>: the source turns the \<open>AttributeError\<close>
  into \<open>AssertionError('no items in df')\<close>.
\<close>

definition fixed_rows :: "df_row list \<Rightarrow> df_row list" where
  "fixed_rows df =
     concat (map (\<lambda>e. let x = filter (\<lambda>r. col_e1 r = e) df
                       in concat (map (\<lambda>n. let y = filter (\<lambda>r. col_n2 r = n) x
                                            in filter (\<lambda>r. offset_le (col_s2 r) (offset_min (map col_e2 y))) y)
                                    (group_keys (<) col_n2 x)))
               (group_keys offset_less col_e1 df))"

definition edges_from_dataframe :: "df_row list \<Rightarrow> node list \<Rightarrow> error + (node \<times> node) list" where
  "edges_from_dataframe df items =
     (let fixed = fixed_rows df
      in if fixed = [] then Inl AssertionError
         else Inr (map (\<lambda>r. (items ! col_a r, items ! col_b r)) fixed))"

text \<open>
  The two loops of \<open>create_entry_and_exit_nodes\<close> run over a set difference, whose
  order Python does not fix; the model takes the nodes in the order of the graph.
\<close>

definition create_entry_and_exit_nodes :: "digraph \<Rightarrow> node list \<Rightarrow> error + digraph" where
  "create_entry_and_exit_nodes graph items =
     (let g1 = add_nodes_from [START, END] graph;
          sorted_items = py_sorted node_lt items
      in case sorted_items of
           [] \<Rightarrow> Inl IndexError
         | first # _ \<Rightarrow>
             (let g2 = add_edge START first g1;
                  unreached = filter (\<lambda>n. \<not> node_eq n START \<and> \<not> member_eq (descendants g2 START) n) (g_nodes g2);
                  g3 = fold (\<lambda>n. add_edge START n) unreached g2;
                  g4 = add_edge (last sorted_items) END g3;
                  stuck = filter (\<lambda>n. \<not> node_eq n END \<and> \<not> member_eq (ancestors g4 END) n) (g_nodes g4)
              in Inr (fold (\<lambda>n. add_edge n END) stuck g4)))"

text \<open>
  \<^verbatim>\<open>
    adjacency_matrix = nx.to_numpy_matrix(graph, nodelist=nodelist) == 1
    reachability_matrix = nx.floyd_warshall_numpy(graph, nodelist=nodelist) == 1
    transitive_reduction = (adjacency_matrix & ~(adjacency_matrix @ reachability_matrix))
    to_remove = (adjacency_matrix ^ transitive_reduction)
    for a,b in zip(*np.where(to_remove)):
        graph.remove_edge(nodelist[a], nodelist[b])
  \<close>
\<close>

definition remove_shortcuts :: "digraph \<Rightarrow> digraph" where
  "remove_shortcuts graph =
     (let nodelist = g_nodes graph;
          adjacency_matrix = map (map (\<lambda>d. d = Some 1)) (to_numpy_matrix graph nodelist (Some 0));
          reachability_matrix = map (map (\<lambda>d. d = Some 1)) (floyd_warshall_numpy graph nodelist);
          transitive_reduction =
            mat_zip (\<lambda>x y. x \<and> \<not> y) adjacency_matrix (bool_matmul adjacency_matrix reachability_matrix);
          to_remove = mat_zip (\<lambda>x y. x \<noteq> y) adjacency_matrix transitive_reduction
      in fold (\<lambda>ab. remove_edge (nodelist ! fst ab) (nodelist ! snd ab)) (np_where2 to_remove) graph)"

text \<open>
  \<open>add_blanks\<close> walks a copy of the node list and, per node, a copy of its successor list
  (networkx 1.x returns lists), so the nodes and edges it adds are not visited.
\<close>

definition add_blank :: "node \<Rightarrow> node \<Rightarrow> digraph \<Rightarrow> digraph" where
  "add_blank nd succ g =
     (if gap_gt_one (node_start succ) (node_end nd) \<and> \<not> node_eq succ END
      then (let nnode = Node (node_end nd, node_start succ) ''_''
            in remove_edge nd succ (add_edges_from [(nd, nnode), (nnode, succ)] (add_node nnode g)))
      else g)"

definition add_blanks :: "digraph \<Rightarrow> digraph" where
  "add_blanks graph =
     fold (\<lambda>nd g. if name nd \<noteq> ''_'' \<and> \<not> node_eq nd START
                   then fold (add_blank nd) (successors g nd) g
                   else g)
       (g_nodes graph) graph"

definition graph_from_document :: "document \<Rightarrow> error + digraph" where
  "graph_from_document rows =
     (case get_dense_matrix rows of
        Inl e \<Rightarrow> Inl e
      | Inr res \<Rightarrow>
          (let items = get_elementary_nodes rows;
               df = matrix_to_dataframe res items
           in case edges_from_dataframe df items of
                Inl e \<Rightarrow> Inl e
              | Inr edges \<Rightarrow>
                  (let graph = add_edges_from edges (add_nodes_from items DiGraph)
                   in case create_entry_and_exit_nodes graph items of
                        Inl e \<Rightarrow> Inl e
                      | Inr g \<Rightarrow> Inr (remove_shortcuts (add_blanks (remove_shortcuts g))))))"

section \<open>trees.py: Grammar\<close>

text \<open>
  A \<open>frozenset\<close> of names is a list without duplicates; the keys of a dictionary are in
  the order of their first insertion.
\<close>

definition py_unique :: "'a list \<Rightarrow> 'a list" where
  "py_unique xs = rev (remdups (rev xs))"

record grammar =
  rules :: "rule list"
  start_symbol :: string
  nonterminals :: "string list"
  terminals :: "string list"
  nonterminal_dependency_order :: "string list"

text \<open>
  \<open>rules_deps\<close>: per left-hand side, in the order \<open>toolz.groupby\<close> meets them, the
  symbols of its right-hand sides that are not terminals.
\<close>

definition rules_deps :: "rule list \<Rightarrow> string list \<Rightarrow> (string \<times> string list) list" where
  "rules_deps rs ts =
     map (\<lambda>k. (k, filter (\<lambda>s. s \<notin> set ts) (py_unique (concat (map rhs (filter (\<lambda>r. lhs r = k) rs))))))
       (py_unique (map lhs rs))"

text \<open>
  One run of the \<open>for\<close> loop of \<open>get_rule_application_order\<close> over the items of
  \<open>rules_deps\<close>: \<open>seen\<close> are the items already visited, with their sets updated.
  \<^verbatim>\<open>
    for k, v in rules_deps.items():
        if not v and k not in order:
            order.append(k)
            break
        else:
            for _ in order:
                rules_deps[k] -= set(order)
  \<close>
\<close>

fun order_scan ::
  "string list \<Rightarrow> (string \<times> string list) list \<Rightarrow> (string \<times> string list) list \<Rightarrow>
   string list \<times> (string \<times> string list) list" where
  "order_scan order seen [] = (order, seen)"
| "order_scan order seen (kv # rest) =
     (if snd kv = [] \<and> fst kv \<notin> set order then (order @ [fst kv], seen @ kv # rest)
      else order_scan order
             (seen @ [(fst kv, if order = [] then snd kv else filter (\<lambda>s. s \<notin> set order) (snd kv))])
             rest)"

text \<open>
  \<open>while len(order) != len(self.nonterminals)\<close>: the loop has no other exit, so the
  result is \<open>None\<close> when it runs forever.
\<close>

partial_function (option) order_loop ::
  "nat \<Rightarrow> string list \<Rightarrow> (string \<times> string list) list \<Rightarrow> string list option" where
  "order_loop n order deps =
     (if length order = n then Some order
      else order_loop n (fst (order_scan order [] deps)) (snd (order_scan order [] deps)))"

declare order_loop.simps [code]

definition get_rule_application_order :: "rule list \<Rightarrow> string list \<Rightarrow> string list \<Rightarrow> string list option" where
  "get_rule_application_order rs nts ts = order_loop (length nts) [] (rules_deps rs ts)"

definition Grammar :: "string \<Rightarrow> rule list \<Rightarrow> grammar option" where
  "Grammar start rs =
     (let nts = py_unique (map lhs rs);
          ts = filter (\<lambda>s. s \<notin> set nts) (py_unique (concat (map rhs rs)))
      in case get_rule_application_order rs nts ts of
           None \<Rightarrow> None
         | Some order \<Rightarrow>
             Some \<lparr>rules = rs, start_symbol = start, nonterminals = nts, terminals = ts,
                   nonterminal_dependency_order = order\<rparr>)"

text \<open>\<open>grammar[key]\<close>: the rules of a nonterminal; any other key indexes the tuple of rules.\<close>

definition grammar_getitem :: "grammar \<Rightarrow> string \<Rightarrow> error + rule list" where
  "grammar_getitem g key =
     (if key \<in> set (nonterminals g) then Inr (filter (\<lambda>i. lhs i = key) (rules g)) else Inl TypeError)"

section \<open>trees.py: chart resolution\<close>

text \<open>
  The body of the \<open>while paths\<close> loop of \<open>get_valid_paths\<close> for one popped path: the
  paths it appends to \<open>paths\<close> and those it appends to \<open>dones_paths\<close>.
  \<^verbatim>\<open>
    for succ in new_graph.successors(current_path[-1]):
        if len(current_path) <= len(etalon):
            if succ[-1] == etalon[len(current_path) - 1]:
                paths.append(current_path + [succ])
        elif len(current_path) == len(etalon) + 1 and succ == END:
            dones_paths.append(current_path[1:])
  \<close>
\<close>

definition extend_path :: "digraph \<Rightarrow> string list \<Rightarrow> node list \<Rightarrow> node list list" where
  "extend_path g etalon current_path =
     (if length current_path \<le> length etalon
      then map (\<lambda>succ. current_path @ [succ])
             (filter (\<lambda>succ. name succ = etalon ! (length current_path - 1))
                (successors g (last current_path)))
      else [])"

definition done_path :: "digraph \<Rightarrow> string list \<Rightarrow> node list \<Rightarrow> node list list" where
  "done_path g etalon current_path =
     (if length current_path \<le> length etalon then []
      else if length current_path = length etalon + 1
      then map (\<lambda>succ. tl current_path) (filter (\<lambda>succ. node_eq succ END) (successors g (last current_path)))
      else [])"

function search_paths ::
  "digraph \<Rightarrow> string list \<Rightarrow> node list list \<Rightarrow> node list list \<Rightarrow> node list list" where
  "search_paths g etalon [] dones_paths = dones_paths"
| "search_paths g etalon (current_path # paths) dones_paths =
     search_paths g etalon (paths @ extend_path g etalon current_path)
       (dones_paths @ done_path g etalon current_path)"
  by pat_completeness auto

definition path_budget :: "digraph \<Rightarrow> string list \<Rightarrow> node list \<Rightarrow> nat" where
  "path_budget g etalon p = (length (g_edges g) + 1) ^ (length etalon + 1 - length p)"

lemma extend_path_budget:
  "sum_list (map (path_budget g etalon) (extend_path g etalon p)) < path_budget g etalon p"
proof (cases "length p \<le> length etalon")
  case True
  let ?D = "length (g_edges g)"
  let ?S = "filter (\<lambda>succ. name succ = etalon ! (length p - 1)) (successors g (last p))"
  have len: "length ?S \<le> ?D"
    by (rule order_trans [OF length_filter_le]) (simp add: successors_def)
  have each: "map (path_budget g etalon) (extend_path g etalon p)
      = map (\<lambda>_. (?D + 1) ^ (length etalon - length p)) ?S"
    using True by (simp add: extend_path_def path_budget_def comp_def)
  have "sum_list (map (path_budget g etalon) (extend_path g etalon p))
      = length ?S * (?D + 1) ^ (length etalon - length p)"
    unfolding each by (simp add: sum_list_triv)
  also have "\<dots> \<le> ?D * (?D + 1) ^ (length etalon - length p)"
    using len by simp
  also have "\<dots> < (?D + 1) * (?D + 1) ^ (length etalon - length p)"
    by simp
  also have "\<dots> = path_budget g etalon p"
    using True by (simp add: path_budget_def Suc_diff_le)
  finally show ?thesis .
next
  case False
  then show ?thesis by (simp add: extend_path_def path_budget_def)
qed

termination search_paths
proof (relation "measure (\<lambda>(g, etalon, paths, dones). sum_list (map (path_budget g etalon) paths))")
  show "wf (measure (\<lambda>(g, etalon, paths, dones). sum_list (map (path_budget g etalon) paths)))"
    by simp
next
  fix g etalon current_path paths dones_paths
  show "((g, etalon, paths @ extend_path g etalon current_path,
          dones_paths @ done_path g etalon current_path),
         (g, etalon, current_path # paths, dones_paths))
        \<in> measure (\<lambda>(g, etalon, paths, dones). sum_list (map (path_budget g etalon) paths))"
    using extend_path_budget [of g etalon current_path] by simp
qed

text \<open>
  \<open>rule.rhs[0]\<close> raises for a rule with an empty right-hand side (the loop over the nodes
  always runs: the graph holds the two sentinels).
\<close>

definition get_valid_paths :: "digraph \<Rightarrow> rule \<Rightarrow> error + node list list" where
  "get_valid_paths graph r =
     (if rhs r = [] then Inl IndexError
      else (let new_graph = add_nodes_from [START, END] (remove_nodes_from [START, END] graph);
                entries = filter (\<lambda>n. name n = hd (rhs r)) (g_nodes new_graph);
                exits = filter (\<lambda>n. name n = last (rhs r)) (g_nodes new_graph);
                g1 = add_edges_from (map (\<lambda>i. (START, i)) entries) new_graph;
                g2 = add_edges_from (map (\<lambda>i. (i, END)) exits) g1
            in Inr (search_paths g2 (rhs r) [[START]] [])))"

text \<open>
  The candidate map is a \<open>defaultdict(list)\<close> keyed by nodes: an association list in
  insertion order, whose keys are compared with \<open>node_eq\<close>. \<open>nodes[node].append(x)\<close>
  finds the entry of an equal key, or makes one with the node it was given.
\<close>

type_synonym candidates = "(node \<times> (rule \<times> node list) list) list"

definition has_key :: "candidates \<Rightarrow> node \<Rightarrow> bool" where
  "has_key m n = list_ex (\<lambda>e. node_eq (fst e) n) m"

definition cand_append :: "node \<Rightarrow> rule \<times> node list \<Rightarrow> candidates \<Rightarrow> candidates" where
  "cand_append n x m =
     (if has_key m n then map (\<lambda>e. if node_eq (fst e) n then (fst e, snd e @ [x]) else e) m
      else m @ [(n, [x])])"

definition cand_lookup :: "candidates \<Rightarrow> node \<Rightarrow> (rule \<times> node list) list" where
  "cand_lookup m n = (case filter (\<lambda>e. node_eq (fst e) n) m of [] \<Rightarrow> [] | e # _ \<Rightarrow> snd e)"

fun fold_err :: "('a \<Rightarrow> 's \<Rightarrow> error + 's) \<Rightarrow> 'a list \<Rightarrow> 's \<Rightarrow> error + 's" where
  "fold_err f [] s = Inr s"
| "fold_err f (x # xs) s = (case f x s of Inl e \<Rightarrow> Inl e | Inr s' \<Rightarrow> fold_err f xs s')"

text \<open>The body of \<open>for path in paths\<close>; the state is \<open>(g2, nodes)\<close>.\<close>

definition apply_path ::
  "string \<Rightarrow> rule \<Rightarrow> node list \<Rightarrow> digraph \<times> candidates \<Rightarrow> error + (digraph \<times> candidates)" where
  "apply_path nonterminal r path st =
     (if path = [] then Inl IndexError
      else (let nd = (Node (node_start (hd path), node_end (last path)) nonterminal)\<lparr>weight := rule_weight r\<rparr>;
                nodes = cand_append nd (r, path) (snd st);
                g3 = add_node nd (fst st);
                g4 = add_edges_from
                       (map (\<lambda>i. (i, nd)) (predecessors g3 (hd path)) @
                        map (\<lambda>i. (nd, i)) (successors g3 (last path))) g3
            in Inr (g4, nodes)))"

definition apply_rule ::
  "string \<Rightarrow> rule \<Rightarrow> digraph \<times> candidates \<Rightarrow> error + (digraph \<times> candidates)" where
  "apply_rule nonterminal r st =
     (case get_valid_paths (fst st) r of
        Inl e \<Rightarrow> Inl e
      | Inr paths \<Rightarrow> fold_err (apply_path nonterminal r) paths st)"

definition apply_nonterminal ::
  "grammar \<Rightarrow> string \<Rightarrow> digraph \<times> candidates \<Rightarrow> error + (digraph \<times> candidates)" where
  "apply_nonterminal g nonterminal st =
     (case grammar_getitem g nonterminal of
        Inl e \<Rightarrow> Inl e
      | Inr rs \<Rightarrow> fold_err (apply_rule nonterminal) rs st)"

definition get_nonterminal_nodes :: "digraph \<Rightarrow> grammar \<Rightarrow> error + candidates" where
  "get_nonterminal_nodes graph g =
     (case fold_err (apply_nonterminal g) (nonterminal_dependency_order g) (graph, []) of
        Inl e \<Rightarrow> Inl e
      | Inr st \<Rightarrow> Inr (snd st))"

section \<open>trees.py: tree selection\<close>

text \<open>
  \<open>max((rule.weight, children) for ...)\<close> compares tuples: the weights first, then the
  lists of children, at the first position where the two nodes are not equal.
\<close>

fun list_gt :: "node list \<Rightarrow> node list \<Rightarrow> bool" where
  "list_gt [] ys = False"
| "list_gt (x # xs) [] = True"
| "list_gt (x # xs) (y # ys) = (if node_eq x y then list_gt xs ys else node_gt x y)"

definition deriv_gt :: "int \<times> node list \<Rightarrow> int \<times> node list \<Rightarrow> bool" where
  "deriv_gt p q = (if fst p \<noteq> fst q then fst p > fst q else list_gt (snd p) (snd q))"

definition chosen_children :: "(rule \<times> node list) list \<Rightarrow> node list" where
  "chosen_children ds = snd (py_max deriv_gt (map (\<lambda>d. (rule_weight (fst d), snd d)) ds))"

text \<open>
  \<^verbatim>\<open>
    while stack:
        node = stack.pop(0)
        graph.add_node(node)
        if nodes[node]:
            _, children = max((rule.weight, children) for (rule, children) in nodes[node])
            graph.add_edges_from([(node, i) for i in children])
            stack.extend(children)
    return graph
  \<close>
  The loop runs forever on a candidate map with a cycle of chosen derivations.
\<close>

partial_function (option) expand :: "candidates \<Rightarrow> node list \<Rightarrow> digraph \<Rightarrow> digraph option" where
  "expand nodes stack graph =
     (case stack of
        [] \<Rightarrow> Some graph
      | nd # rest \<Rightarrow>
          (if cand_lookup nodes nd = [] then expand nodes rest (add_node nd graph)
           else expand nodes (rest @ chosen_children (cand_lookup nodes nd))
                  (add_edges_from (map (\<lambda>i. (nd, i)) (chosen_children (cand_lookup nodes nd)))
                     (add_node nd graph))))"

declare expand.simps [code]

definition start_nodes :: "candidates \<Rightarrow> grammar \<Rightarrow> node list" where
  "start_nodes nodes g = filter (\<lambda>i. name i = start_symbol g) (map fst nodes)"

definition choose_parse_tree :: "candidates \<Rightarrow> grammar \<Rightarrow> (error + digraph) option" where
  "choose_parse_tree nodes g =
     (if \<not> length (start_nodes nodes g) \<ge> 1 then Some (Inl AssertionError)
      else map_option Inr
             (expand nodes [py_max (\<lambda>x y. weight x > weight y) (start_nodes nodes g)] DiGraph))"

definition document_to_graph :: "document \<Rightarrow> grammar \<Rightarrow> (error + digraph) option" where
  "document_to_graph doc g =
     (case graph_from_document doc of
        Inl e \<Rightarrow> Some (Inl e)
      | Inr graph \<Rightarrow>
          (case get_nonterminal_nodes graph g of
             Inl e \<Rightarrow> Some (Inl e)
           | Inr nonterminal_nodes \<Rightarrow> choose_parse_tree nonterminal_nodes g))"

section \<open>The example document and grammar\<close>

definition noun1 :: node where
  "noun1 = Node (Fin 0, Fin 5) ''NOUN''"

definition verb :: node where
  "verb = Node (Fin 5, Fin 9) ''VERB''"

definition noun2 :: node where
  "noun2 = Node (Fin 9, Fin 14) ''NOUN''"

definition example_document :: document where
  "example_document = [(''NOUN'', [(0, 5), (9, 14)]), (''VERB'', [(5, 9)])]"

definition example_rule :: rule where
  "example_rule = Rule ''S'' [''NOUN'', ''VERB'', ''NOUN''] (Some 5)"

definition example_grammar :: grammar where
  "example_grammar =
     \<lparr>rules = [example_rule], start_symbol = ''S'', nonterminals = [''S''],
      terminals = [''NOUN'', ''VERB''], nonterminal_dependency_order = [''S'']\<rparr>"

definition example_graph :: digraph where
  "example_graph =
     \<lparr>g_nodes = [noun1, noun2, verb, START, END],
      g_edges = [(noun1, verb), (verb, noun2), (START, noun1), (START, END), (noun2, END)]\<rparr>"

definition s_node :: node where
  "s_node = \<lparr>span = (Fin 0, Fin 14), name = ''S'', weight = 5\<rparr>"

definition example_tree :: digraph where
  "example_tree =
     \<lparr>g_nodes = [s_node, noun1, verb, noun2],
      g_edges = [(s_node, noun1), (s_node, verb), (s_node, noun2)]\<rparr>"

text \<open>The position of a key in the sorted list of keys, as used in the proofs below.\<close>

definition rank :: "int list \<Rightarrow> int \<Rightarrow> nat" where
  "rank keys x = length (filter (\<lambda>k. k < x) keys)"

text \<open>
  The entry of the dense matrix, read on the nodes: the node at \<open>j\<close> is a candidate
  successor of the node at \<open>i\<close>.
\<close>

definition candidate :: "node list \<Rightarrow> nat \<Rightarrow> nat \<Rightarrow> bool" where
  "candidate items i j \<longleftrightarrow> offset_le (node_end (items ! i)) (node_start (items ! j))"

text \<open>
  The identity of a node, and the edges of a graph as a relation on identities; a node is
  reachable from another when the pair is in the transitive closure of that relation.
\<close>

definition key :: "node \<Rightarrow> span \<times> string" where
  "key n = (span n, name n)"



text \<open>The entries of \<open>to_remove\<close>, read on an edge of the graph.\<close>

definition shortcut :: "digraph \<Rightarrow> node \<times> node \<Rightarrow> bool" where
  "shortcut g e \<longleftrightarrow>
     (\<exists>a < length (g_nodes g). \<exists>b < length (g_nodes g).
        node_eq (fst e) (g_nodes g ! a) \<and> node_eq (snd e) (g_nodes g ! b) \<and>
        has_edge g (g_nodes g ! a) (g_nodes g ! b) \<and>
        (\<exists>k < length (g_nodes g). has_edge g (g_nodes g ! a) (g_nodes g ! k) \<and> k \<noteq> b \<and>
           has_edge g (g_nodes g ! k) (g_nodes g ! b)))"

text \<open>A chain of four nodes with one more edge from its first node to its last.\<close>

definition node_a :: node where
  "node_a = Node (Fin 0, Fin 1) ''A''"

definition node_b :: node where
  "node_b = Node (Fin 1, Fin 2) ''B''"

definition node_c :: node where
  "node_c = Node (Fin 2, Fin 3) ''C''"

definition node_d :: node where
  "node_d = Node (Fin 3, Fin 4) ''D''"

definition chain_graph :: digraph where
  "chain_graph =
     \<lparr>g_nodes = [node_a, node_b, node_c, node_d],
      g_edges = [(node_a, node_b), (node_b, node_c), (node_c, node_d), (node_a, node_d)]\<rparr>"

text \<open>
  Reading one run of \<open>order_scan\<close>: an item is ready when the loop appends its key, and
  \<open>upd\<close> is what the \<open>else\<close> branch leaves of an item.
\<close>

definition ready :: "string list \<Rightarrow> string \<times> string list \<Rightarrow> bool" where
  "ready order kv \<longleftrightarrow> snd kv = [] \<and> fst kv \<notin> set order"

definition upd :: "string list \<Rightarrow> string \<times> string list \<Rightarrow> string \<times> string list" where
  "upd order kv = (fst kv, filter (\<lambda>s. s \<notin> set order) (snd kv))"

text \<open>
  The invariant of the \<open>while\<close> loop, against the dependency sets \<open>deps0\<close> it started
  from: every key of \<open>order\<close> has all it depends on before it, and the sets of \<open>deps\<close>
  have lost keys of \<open>order\<close> only.
\<close>

definition topo :: "(string \<times> string list) list \<Rightarrow> string list \<Rightarrow> bool" where
  "topo deps0 order \<longleftrightarrow>
     distinct order \<and>
     (\<forall>j < length order. \<exists>i < length deps0.
         fst (deps0 ! i) = order ! j \<and> set (snd (deps0 ! i)) \<subseteq> set (take j order))"

definition scan_inv ::
  "(string \<times> string list) list \<Rightarrow> string list \<Rightarrow> (string \<times> string list) list \<Rightarrow> bool" where
  "scan_inv deps0 order deps \<longleftrightarrow>
     topo deps0 order \<and> length deps = length deps0 \<and>
     (\<forall>i < length deps0.
         fst (deps ! i) = fst (deps0 ! i) \<and>
         set (snd (deps ! i)) \<subseteq> set (snd (deps0 ! i)) \<and>
         set (snd (deps0 ! i)) - set order \<subseteq> set (snd (deps ! i)))"

text \<open>The dependency relation that the sets of \<open>rules_deps\<close> hold.\<close>

definition deps_rel :: "(string \<times> string list) list \<Rightarrow> (string \<times> string) set" where
  "deps_rel deps0 = {(fst e, s) | e s. e \<in> set deps0 \<and> s \<in> set (snd e)}"

text \<open>
  The nonterminal-dependency relation of a rule set: a left-hand side depends on every
  nonterminal in one of its right-hand sides. An order is valid when it lists every
  nonterminal once, after the nonterminals it depends on.
\<close>

definition dep_rel :: "rule list \<Rightarrow> (string \<times> string) set" where
  "dep_rel rs = {(lhs r, s) | r s. r \<in> set rs \<and> s \<in> set (rhs r) \<and> s \<in> lhs ` set rs}"

definition valid_order :: "rule list \<Rightarrow> string list \<Rightarrow> bool" where
  "valid_order rs order \<longleftrightarrow>
     distinct order \<and> set order = lhs ` set rs \<and>
     (\<forall>j < length order. \<forall>s. (order ! j, s) \<in> dep_rel rs \<longrightarrow> s \<in> set (take j order))"

text \<open>The terminals as \<open>Grammar.__init__\<close> computes them.\<close>

definition grammar_terminals :: "rule list \<Rightarrow> string list" where
  "grammar_terminals rs =
     filter (\<lambda>s. s \<notin> set (py_unique (map lhs rs))) (py_unique (concat (map rhs rs)))"

text \<open>Two rule sets: one in two levels, one with a cycle.\<close>

definition two_level_rules :: "rule list" where
  "two_level_rules = [Rule ''S'' [''NP'', ''VERB''] None, Rule ''NP'' [''NOUN''] None]"

definition cyclic_rules :: "rule list" where
  "cyclic_rules = [Rule ''A'' [''B''] None, Rule ''B'' [''A''] None]"

text \<open>
  An edge of the selected tree goes from a node with recorded derivations to a node of the
  derivation that \<open>max\<close> chooses for it.
\<close>

definition derived_edge :: "candidates \<Rightarrow> node \<times> node \<Rightarrow> bool" where
  "derived_edge nodes e \<longleftrightarrow>
     cand_lookup nodes (fst e) \<noteq> [] \<and> snd e \<in> set (chosen_children (cand_lookup nodes (fst e)))"



text \<open>
  What chart resolution keeps true of the candidate map: one entry per identity, no entry
  without a derivation, and the weight of the stored node is the weight of the rule of
  its first derivation.
\<close>

definition cand_inv :: "candidates \<Rightarrow> bool" where
  "cand_inv m \<longleftrightarrow>
     distinct (map (\<lambda>e. key (fst e)) m) \<and>
     (\<forall>e \<in> set m. snd e \<noteq> [] \<and> weight (fst e) = rule_weight (fst (hd (snd e))))"

text \<open>
  Three rules for \<open>S\<close>: the first and the third match the same path, the second a
  shorter one.
\<close>

definition three_rules :: "rule list" where
  "three_rules = [Rule ''S'' [''NOUN'', ''VERB'', ''NOUN''] (Some 5),
                  Rule ''S'' [''NOUN'', ''VERB''] (Some 7),
                  Rule ''S'' [''NOUN'', ''VERB'', ''NOUN''] (Some 9)]"

definition three_rule_grammar :: grammar where
  "three_rule_grammar =
     \<lparr>rules = three_rules, start_symbol = ''S'', nonterminals = [''S''],
      terminals = [''NOUN'', ''VERB''], nonterminal_dependency_order = [''S'']\<rparr>"

definition s_short :: node where
  "s_short = \<lparr>span = (Fin 0, Fin 9), name = ''S'', weight = 7\<rparr>"

definition three_rule_map :: candidates where
  "three_rule_map =
     [(s_node, [(Rule ''S'' [''NOUN'', ''VERB'', ''NOUN''] (Some 5), [noun1, verb, noun2]),
                (Rule ''S'' [''NOUN'', ''VERB'', ''NOUN''] (Some 9), [noun1, verb, noun2])]),
      (s_short, [(Rule ''S'' [''NOUN'', ''VERB''] (Some 7), [noun1, verb])])]"

section \<open>Properties: the pipeline on the example\<close>

text \<open>
  Claim C1. For the document \<open>{"NOUN": [(0,5), (9,14)], "VERB": [(5,9)]}\<close> and the one
  rule \<open>S -> NOUN VERB NOUN\<close> of weight 5 with start symbol \<open>S\<close>: the graph that
  \<open>graph_from_document\<close> builds has the three elementary nodes and the two sentinels as
  its nodes, no blank node, and between the elementary nodes exactly the edges
  \<open>NOUN[0,5) -> VERB[5,9) -> NOUN[9,14)\<close> (the sentinels add \<open>START -> NOUN[0,5)\<close>,
  \<open>NOUN[9,14) -> END\<close> and \<open>START -> END\<close>); constructing the grammar returns, with
  the order \<open>[S]\<close>; \<open>get_nonterminal_nodes\<close> returns one entry, the node \<open>S\<close> of span
  \<open>(0,14)\<close> and weight 5, with the one derivation through the three elementary nodes;
  \<open>choose_parse_tree\<close> returns the tree whose root is that node and whose children are
  the three elementary nodes, leaves, in ascending order of their starts.
\<close>

theorem example_end_to_end:
  "graph_from_document example_document = Inr example_graph
   \<and> filter (\<lambda>n. name n = ''_'') (g_nodes example_graph) = []
   \<and> Grammar ''S'' [example_rule] = Some example_grammar
   \<and> get_nonterminal_nodes example_graph example_grammar
       = Inr [(s_node, [(example_rule, [noun1, verb, noun2])])]
   \<and> choose_parse_tree [(s_node, [(example_rule, [noun1, verb, noun2])])] example_grammar
       = Some (Inr example_tree)
   \<and> document_to_graph example_document example_grammar = Some (Inr example_tree)
   \<and> hd (g_nodes example_tree) = s_node
   \<and> successors example_tree s_node = [noun1, verb, noun2]
   \<and> map node_start (successors example_tree s_node) = [Fin 0, Fin 5, Fin 9]
   \<and> successors example_tree noun1 = []
   \<and> successors example_tree verb = []
   \<and> successors example_tree noun2 = []"
  by code_simp

section \<open>Properties: candidate successors in the dense matrix\<close>

lemma map_err_Inr: "(\<And>x. x \<in> set xs \<Longrightarrow> f x = Inr (g x)) \<Longrightarrow> map_err f xs = Inr (map g xs)"
  by (induction xs) auto

lemma length_insort_by: "length (insort_by lt x xs) = Suc (length xs)"
  by (induction xs) auto

lemma length_py_sorted: "length (py_sorted lt xs) = length xs"
  by (induction xs) (auto simp: py_sorted_def length_insort_by)

lemma filter_less_nth:
  "sorted_wrt (<) xs \<Longrightarrow> i < length xs \<Longrightarrow> filter (\<lambda>k. k < xs ! i) xs = take i (xs :: int list)"
proof (induction xs arbitrary: i)
  case Nil
  then show ?case by simp
next
  case (Cons x xs)
  show ?case
  proof (cases i)
    case 0
    have "filter (\<lambda>k. k < x) xs = []"
      using Cons.prems(1) by (auto simp: filter_empty_conv)
    then show ?thesis using 0 by simp
  next
    case (Suc j)
    have "x < xs ! j" using Cons.prems Suc by auto
    moreover have "filter (\<lambda>k. k < xs ! j) xs = take j xs"
      using Cons.IH [of j] Cons.prems Suc by auto
    ultimately show ?thesis using Suc by simp
  qed
qed

lemma map_of_rank:
  assumes "sorted_wrt (<) keys" and "x \<in> set keys"
  shows "map_of (zip keys [0..<length keys]) x = Some (rank keys x)" and "rank keys x < length keys"
proof -
  obtain i where i: "i < length keys" "keys ! i = x"
    using assms(2) by (auto simp: in_set_conv_nth)
  have d: "distinct keys" using assms(1) by (simp add: strict_sorted_iff)
  have "map_of (zip keys [0..<length keys]) (keys ! i) = Some ([0..<length keys] ! i)"
    by (rule map_of_zip_nth) (use d i in auto)
  moreover have "rank keys x = i"
    using filter_less_nth [OF assms(1) i(1)] i by (simp add: rank_def)
  ultimately show "map_of (zip keys [0..<length keys]) x = Some (rank keys x)"
    and "rank keys x < length keys" using i by auto
qed

lemma rank_mono: "x \<le> y \<Longrightarrow> rank keys x \<le> rank keys y"
  unfolding rank_def by (induction keys) auto

lemma rank_strict: "x \<in> set keys \<Longrightarrow> x < y \<Longrightarrow> rank keys x < rank keys y"
  unfolding rank_def
proof (induction keys)
  case Nil
  then show ?case by simp
next
  case (Cons k ks)
  have m: "length (filter (\<lambda>k. k < x) ks) \<le> length (filter (\<lambda>k. k < y) ks)"
    using rank_mono [of x y ks] Cons.prems by (simp add: rank_def)
  show ?case
  proof (cases "x = k")
    case True
    then show ?thesis using Cons.prems m by auto
  next
    case False
    then show ?thesis using Cons by auto
  qed
qed


lemma filter_range: "j \<le> m \<Longrightarrow> filter (\<lambda>k. i \<le> k \<and> k < j) [0..<m] = [i..<j]"
  by (rule sorted_distinct_set_unique) (auto simp: sorted_wrt_filter)

lemma np_where_range: "j \<le> m \<Longrightarrow> np_where (map (\<lambda>k. i \<le> k \<and> k < j) [0..<m]) = [i..<j]"
proof -
  assume j: "j \<le> m"
  have "filter (\<lambda>k. map (\<lambda>k. i \<le> k \<and> k < j) [0..<m] ! k) [0..<m] = filter (\<lambda>k. i \<le> k \<and> k < j) [0..<m]"
    by (rule filter_cong) auto
  then show ?thesis using filter_range [OF j] by (simp add: np_where_def)
qed


lemma map_err_map: "map_err f (map h xs) = map_err (\<lambda>x. f (h x)) xs"
  by (induction xs) (auto split: sum.splits)

lemma set_concat_fst: "set (concat (map (\<lambda>kv. map f (snd kv)) rows)) = f ` set (concat (map snd rows))"
  by (induction rows) auto

lemma dense_matrix_spans:
  assumes "\<forall>ab \<in> set (concat (map snd rows)). fst ab < snd ab"
  shows "get_dense_matrix rows
         = Inr (map (\<lambda>A. map (\<lambda>B. snd A \<le> fst B) (concat (map snd rows))) (concat (map snd rows)))"
proof -
  let ?spans = "concat (map snd rows)"
  define keys where "keys = sort (remdups (remdups (concat (map (\<lambda>kv. map fst (snd kv)) rows))
      @ remdups (concat (map (\<lambda>kv. map snd (snd kv)) rows))))"
  have mapping: "fst (get_dense_mapping rows) = zip keys [0..<length keys]"
    by (simp add: get_dense_mapping_def keys_def Let_def)
  have rm: "length (snd (get_dense_mapping rows)) = length keys"
    by (simp add: get_dense_mapping_def keys_def Let_def length_py_sorted)
  have sk: "sorted_wrt (<) keys"
    unfolding keys_def strict_sorted_iff by simp
  have setk: "set keys = fst ` set ?spans \<union> snd ` set ?spans"
    by (simp add: keys_def set_concat_fst del: set_concat)
  let ?lo = "\<lambda>ab. rank keys (fst ab)"
  let ?hi = "\<lambda>ab. rank keys (snd ab)"
  let ?row = "\<lambda>ab. map (\<lambda>k. ?lo ab \<le> k \<and> k < ?hi ab) [0..<length keys - 1]"
  have in_keys: "fst ab \<in> set keys" "snd ab \<in> set keys" if "ab \<in> set ?spans" for ab
    using that by (auto simp: setk)
  have row: "dense_row (zip keys [0..<length keys]) (length keys) ab = Inr (?row ab)"
    if "ab \<in> set ?spans" for ab
    using map_of_rank(1) [OF sk in_keys(1) [OF that]] map_of_rank(1) [OF sk in_keys(2) [OF that]]
    by (simp add: dense_row_def)
  have b_rows: "map_err (dense_row (zip keys [0..<length keys]) (length keys)) ?spans
      = Inr (map ?row ?spans)"
    by (rule map_err_Inr) (rule row)
  have lohi: "?lo ab < ?hi ab" "?hi ab \<le> length keys - 1" if "ab \<in> set ?spans" for ab
  proof -
    have "fst ab < snd ab" using assms that by blast
    then show "?lo ab < ?hi ab" using rank_strict [OF in_keys(1) [OF that]] by blast
    show "?hi ab \<le> length keys - 1"
      using map_of_rank(2) [OF sk in_keys(2) [OF that]] by simp
  qed
  have fl: "first_last (?row ab) = Inr (?lo ab, ?hi ab - 1)" if "ab \<in> set ?spans" for ab
  proof -
    have "np_where (?row ab) = [?lo ab..<?hi ab]"
      by (rule np_where_range) (rule lohi(2) [OF that])
    then show ?thesis using lohi(1) [OF that] by (simp add: first_last_def)
  qed
  have fls: "map_err first_last (map ?row ?spans) = Inr (map (\<lambda>ab. (?lo ab, ?hi ab - 1)) ?spans)"
    unfolding map_err_map by (rule map_err_Inr) (rule fl)
  have entry: "(?hi A - 1 < ?lo B) = (snd A \<le> fst B)"
    if A: "A \<in> set ?spans" and B: "B \<in> set ?spans" for A B
  proof
    assume "?hi A - 1 < ?lo B"
    then have "?hi A \<le> ?lo B" using lohi(1) [OF A] by simp
    then show "snd A \<le> fst B"
      using rank_strict [OF in_keys(1) [OF B], of "snd A"] by (cases "snd A \<le> fst B") auto
  next
    assume "snd A \<le> fst B"
    then have "?hi A \<le> ?lo B" by (rule rank_mono)
    then show "?hi A - 1 < ?lo B" using lohi(1) [OF A] by simp
  qed
  have "get_dense_matrix rows
        = Inr (map (\<lambda>idx. map (\<lambda>s. idx < s) (map ?lo ?spans)) (map (\<lambda>ab. ?hi ab - 1) ?spans))"
    by (simp add: get_dense_matrix_def mapping rm b_rows fls comp_def del: One_nat_def)
  also have "\<dots> = Inr (map (\<lambda>A. map (\<lambda>B. snd A \<le> fst B) ?spans) ?spans)"
    using entry by (simp add: comp_def)
  finally show ?thesis .
qed

lemma map_elementary_nodes:
  "map (\<lambda>n. F (span n)) (get_elementary_nodes rows)
   = map (\<lambda>ab. F (Fin (fst ab), Fin (snd ab))) (concat (map snd rows))"
  by (induction rows) (auto simp: get_elementary_nodes_def Node_def)

text \<open>
  Claim C2 (amended). \<open>get_dense_matrix\<close> returns whenever every span of the document has
  its start before its end, and for every pair of elementary nodes \<open>(A, B)\<close> its entry
  says that \<open>B\<close> is a candidate successor of \<open>A\<close> if and only if the start of \<open>B\<close> is
  greater than or equal to the end of \<open>A\<close>: two spans that touch are candidates.
\<close>

theorem dense_matrix_candidates:
  assumes "\<forall>ab \<in> set (concat (map snd rows)). fst ab < snd ab"
  shows "get_dense_matrix rows
         = Inr (map (\<lambda>A. map (\<lambda>B. offset_le (node_end A) (node_start B)) (get_elementary_nodes rows))
                  (get_elementary_nodes rows))"
proof -
  have le: "offset_le (Fin x) (Fin y) = (x \<le> y)" for x y
    by (auto simp: offset_le_def)
  have inner: "map (\<lambda>B. offset_le e (node_start B)) (get_elementary_nodes rows)
      = map (\<lambda>ab. offset_le e (Fin (fst ab))) (concat (map snd rows))" for e
    using map_elementary_nodes [of "\<lambda>sp. offset_le e (fst sp)" rows]
    by (simp add: node_start_def)
  have "map (\<lambda>A. map (\<lambda>B. offset_le (node_end A) (node_start B)) (get_elementary_nodes rows))
          (get_elementary_nodes rows)
        = map (\<lambda>A. map (\<lambda>ab. offset_le (node_end A) (Fin (fst ab))) (concat (map snd rows)))
            (get_elementary_nodes rows)"
    by (simp add: inner)
  also have "\<dots> = map (\<lambda>cd. map (\<lambda>ab. offset_le (Fin (snd cd)) (Fin (fst ab))) (concat (map snd rows)))
            (concat (map snd rows))"
    using map_elementary_nodes
      [of "\<lambda>sp. map (\<lambda>ab. offset_le (snd sp) (Fin (fst ab))) (concat (map snd rows))" rows]
    by (simp add: node_end_def)
  finally show ?thesis
    using dense_matrix_spans [OF assms] by (simp add: le)
qed

theorem dense_matrix_candidates_witness:
  "get_dense_matrix example_document
   = Inr [[False, True, True], [False, False, False], [False, True, False]]"
  using dense_matrix_candidates [of example_document]
  by (simp add: example_document_def get_elementary_nodes_def Node_def node_start_def
      node_end_def offset_le_def)

text \<open>
  The claim as it is written fails on the example document: \<open>VERB[5,9)\<close> starts where
  \<open>NOUN[0,5)\<close> ends, not after it, and the matrix makes it a candidate successor.
\<close>

theorem touching_spans_are_candidates:
  "get_dense_matrix example_document
     = Inr [[False, True, True], [False, False, False], [False, True, False]]
   \<and> projr (get_dense_matrix example_document) ! 0 ! 2
   \<and> get_elementary_nodes example_document ! 0 = noun1
   \<and> get_elementary_nodes example_document ! 2 = verb
   \<and> node_start verb = node_end noun1
   \<and> \<not> offset_less (node_end noun1) (node_start verb)"
  by code_simp

section \<open>Properties: the edges kept by the data frame filter\<close>

lemma set_insort_by: "set (insort_by lt x xs) = insert x (set xs)"
  by (induction xs) auto

lemma set_py_sorted: "set (py_sorted lt xs) = set xs"
  by (induction xs) (auto simp: py_sorted_def set_insort_by)

lemma offset_less_trans: "offset_less x y \<Longrightarrow> offset_less y z \<Longrightarrow> offset_less x z"
  by (cases x; cases y; cases z) auto

lemma offset_less_linear: "offset_less x y \<or> x = y \<or> offset_less y x"
  by (cases x; cases y) auto

lemma offset_less_irrefl: "\<not> offset_less x x"
  by (cases x) auto

lemma offset_le_trans: "offset_le x y \<Longrightarrow> offset_le y z \<Longrightarrow> offset_le x z"
  unfolding offset_le_def using offset_less_trans by blast

lemma offset_le_total: "offset_le x y \<or> offset_le y x"
  unfolding offset_le_def using offset_less_linear by blast

lemma offset_min_fold:
  "foldl (\<lambda>m x. if offset_less x m then x else m) a xs \<in> set (a # xs) \<and>
   (\<forall>x \<in> set (a # xs). offset_le (foldl (\<lambda>m x. if offset_less x m then x else m) a xs) x)"
proof (induction xs arbitrary: a)
  case Nil
  then show ?case by (simp add: offset_le_def)
next
  case (Cons y ys)
  show ?case
  proof (cases "offset_less y a")
    case True
    have "offset_le y a" using True by (simp add: offset_le_def)
    then show ?thesis using Cons.IH [of y] True offset_le_trans by auto
  next
    case False
    then have "offset_le a y" using offset_less_linear [of a y] by (auto simp: offset_le_def)
    then show ?thesis using Cons.IH [of a] False offset_le_trans by auto
  qed
qed

lemma offset_le_min_iff:
  assumes "xs \<noteq> []"
  shows "offset_le v (offset_min xs) \<longleftrightarrow> (\<forall>x \<in> set xs. offset_le v x)"
proof -
  obtain a ys where xs: "xs = a # ys" using assms by (cases xs) auto
  have m: "offset_min xs \<in> set xs" "\<forall>x \<in> set xs. offset_le (offset_min xs) x"
    using offset_min_fold [of a ys] by (simp_all add: offset_min_def xs)
  show ?thesis using m offset_le_trans by blast
qed

lemma in_set_concat_map: "r \<in> set (concat (map f xs)) \<longleftrightarrow> (\<exists>x \<in> set xs. r \<in> set (f x))"
  by auto

lemma set_fixed_rows:
  "set (fixed_rows df)
   = {r \<in> set df. \<forall>r' \<in> set df. col_e1 r' = col_e1 r \<and> col_n2 r' = col_n2 r
                      \<longrightarrow> offset_le (col_s2 r) (col_e2 r')}"
proof -
  have grp: "(r \<in> set (filter (\<lambda>r. offset_le (col_s2 r) (offset_min (map col_e2 y))) y))
      = (r \<in> set y \<and> (\<forall>r' \<in> set y. offset_le (col_s2 r) (col_e2 r')))" for r and y :: "df_row list"
  proof (cases "y = []")
    case True
    then show ?thesis by simp
  next
    case False
    then show ?thesis using offset_le_min_iff [of "map col_e2 y" "col_s2 r"] by auto
  qed
  have mem: "(r \<in> set (fixed_rows df))
      = (\<exists>e n. r \<in> set (filter (\<lambda>r. offset_le (col_s2 r)
                 (offset_min (map col_e2 (filter (\<lambda>r. col_n2 r = n) (filter (\<lambda>r. col_e1 r = e) df)))))
                 (filter (\<lambda>r. col_n2 r = n) (filter (\<lambda>r. col_e1 r = e) df)))
           \<and> e \<in> col_e1 ` set df \<and> n \<in> col_n2 ` set (filter (\<lambda>r. col_e1 r = e) df))" for r
    unfolding fixed_rows_def Let_def
    by (simp only: in_set_concat_map group_keys_def set_py_sorted set_remdups set_map) blast
  show ?thesis
  proof (intro set_eqI iffI)
    fix r
    assume "r \<in> set (fixed_rows df)"
    then obtain e n where
      "r \<in> set (filter (\<lambda>r. offset_le (col_s2 r)
                 (offset_min (map col_e2 (filter (\<lambda>r. col_n2 r = n) (filter (\<lambda>r. col_e1 r = e) df)))))
                 (filter (\<lambda>r. col_n2 r = n) (filter (\<lambda>r. col_e1 r = e) df)))"
      unfolding mem by blast
    then have "r \<in> set (filter (\<lambda>r. col_n2 r = n) (filter (\<lambda>r. col_e1 r = e) df))"
      and "\<forall>r' \<in> set (filter (\<lambda>r. col_n2 r = n) (filter (\<lambda>r. col_e1 r = e) df)).
              offset_le (col_s2 r) (col_e2 r')"
      unfolding grp by blast+
    then show "r \<in> {r \<in> set df. \<forall>r' \<in> set df. col_e1 r' = col_e1 r \<and> col_n2 r' = col_n2 r
                      \<longrightarrow> offset_le (col_s2 r) (col_e2 r')}"
      by auto
  next
    fix r
    assume "r \<in> {r \<in> set df. \<forall>r' \<in> set df. col_e1 r' = col_e1 r \<and> col_n2 r' = col_n2 r
                      \<longrightarrow> offset_le (col_s2 r) (col_e2 r')}"
    then have r: "r \<in> set df"
      and all: "\<forall>r' \<in> set df. col_e1 r' = col_e1 r \<and> col_n2 r' = col_n2 r
                      \<longrightarrow> offset_le (col_s2 r) (col_e2 r')"
      by blast+
    let ?y = "filter (\<lambda>r'. col_n2 r' = col_n2 r) (filter (\<lambda>r'. col_e1 r' = col_e1 r) df)"
    have "r \<in> set ?y \<and> (\<forall>r' \<in> set ?y. offset_le (col_s2 r) (col_e2 r'))"
      using r all by auto
    then have "r \<in> set (filter (\<lambda>r. offset_le (col_s2 r) (offset_min (map col_e2 ?y))) ?y)"
      unfolding grp .
    moreover have "col_e1 r \<in> col_e1 ` set df"
      and "col_n2 r \<in> col_n2 ` set (filter (\<lambda>r'. col_e1 r' = col_e1 r) df)"
      using r by auto
    ultimately show "r \<in> set (fixed_rows df)"
      unfolding mem by blast
  qed
qed


lemma set_np_where: "set (np_where row) = {k. k < length row \<and> row ! k}"
  by (auto simp: np_where_def)

lemma set_np_where2: "set (np_where2 m) = {(r, c). r < length m \<and> c < length (m ! r) \<and> m ! r ! c}"
  by (auto simp: np_where2_def set_np_where)

text \<open>
  Claim C5 (amended). In the edge filter of the graph construction, the candidates of a
  predecessor \<open>A\<close> are grouped by their label, and in each group exactly those candidates
  are kept whose start offset is at most the smallest end offset of the group: the pair
  \<open>(A, B)\<close> is an edge if and only if \<open>B\<close> is a candidate of \<open>A\<close> and starts no later than
  every candidate of \<open>A\<close> with the label of \<open>B\<close> ends. The smallest start over all the
  candidates of \<open>A\<close> plays no part.
\<close>

theorem edges_from_dataframe_retains:
  assumes spans: "\<forall>ab \<in> set (concat (map snd rows)). fst ab < snd ab"
    and res: "get_dense_matrix rows = Inr res"
    and es: "edges_from_dataframe (matrix_to_dataframe res (get_elementary_nodes rows))
               (get_elementary_nodes rows) = Inr es"
  shows "set es =
    {(get_elementary_nodes rows ! i, get_elementary_nodes rows ! j) | i j.
       i < length (get_elementary_nodes rows) \<and> j < length (get_elementary_nodes rows) \<and>
       candidate (get_elementary_nodes rows) i j \<and>
       (\<forall>j' < length (get_elementary_nodes rows).
           candidate (get_elementary_nodes rows) i j' \<and>
           name (get_elementary_nodes rows ! j') = name (get_elementary_nodes rows ! j)
           \<longrightarrow> offset_le (node_start (get_elementary_nodes rows ! j))
                          (node_end (get_elementary_nodes rows ! j')))}"
proof -
  define items where "items = get_elementary_nodes rows"
  define n where "n = length items"
  define df where "df = matrix_to_dataframe res items"
  define mk where "mk = (\<lambda>ab. \<lparr>col_n1 = name (items ! fst ab),
                col_s1 = node_start (items ! fst ab),
                col_e1 = node_end (items ! fst ab),
                col_n2 = name (items ! snd ab),
                col_s2 = node_start (items ! snd ab),
                col_e2 = node_end (items ! snd ab),
                col_a = fst ab, col_b = snd ab\<rparr>)"
  have res_eq: "res = map (\<lambda>A. map (\<lambda>B. offset_le (node_end A) (node_start B)) items) items"
    using dense_matrix_candidates [OF spans] res by (simp add: items_def)
  have idx: "set (np_where2 res) = {(i, j). i < n \<and> j < n \<and> candidate items i j}"
    unfolding set_np_where2 by (auto simp: res_eq n_def candidate_def)
  have df_set: "set df = mk ` {(i, j). i < n \<and> j < n \<and> candidate items i j}"
    unfolding df_def matrix_to_dataframe_def mk_def [symmetric] by (simp add: idx)
  have es_set: "set es = (\<lambda>r. (items ! col_a r, items ! col_b r)) ` set (fixed_rows df)"
    using es by (auto simp: edges_from_dataframe_def Let_def df_def items_def split: if_splits)
  have same_end: "candidate items i' j' = candidate items i j'"
    if "node_end (items ! i') = node_end (items ! i)" for i i' j'
    using that by (simp add: candidate_def)
  have keep: "(mk (i, j) \<in> set (fixed_rows df))
      = (\<forall>j' < n. candidate items i j' \<and> name (items ! j') = name (items ! j)
            \<longrightarrow> offset_le (node_start (items ! j)) (node_end (items ! j')))"
    if "i < n" "j < n" "candidate items i j" for i j
  proof -
    have "mk (i, j) \<in> set df" using that by (auto simp: df_set)
    then have "(mk (i, j) \<in> set (fixed_rows df))
      = (\<forall>r' \<in> set df. col_e1 r' = col_e1 (mk (i, j)) \<and> col_n2 r' = col_n2 (mk (i, j))
                      \<longrightarrow> offset_le (col_s2 (mk (i, j))) (col_e2 r'))"
      by (simp add: set_fixed_rows)
    also have "\<dots> = (\<forall>i' j'. i' < n \<and> j' < n \<and> candidate items i' j'
        \<and> node_end (items ! i') = node_end (items ! i) \<and> name (items ! j') = name (items ! j)
        \<longrightarrow> offset_le (node_start (items ! j)) (node_end (items ! j')))"
      by (auto simp: df_set mk_def)
    also have "\<dots> = (\<forall>j' < n. candidate items i j' \<and> name (items ! j') = name (items ! j)
            \<longrightarrow> offset_le (node_start (items ! j)) (node_end (items ! j')))"
      using same_end that(1) by blast
    finally show ?thesis .
  qed
  have "set es = {(items ! i, items ! j) | i j. i < n \<and> j < n \<and> candidate items i j \<and>
       (\<forall>j' < n. candidate items i j' \<and> name (items ! j') = name (items ! j)
            \<longrightarrow> offset_le (node_start (items ! j)) (node_end (items ! j')))}"
  proof (intro set_eqI iffI)
    fix e
    assume "e \<in> set es"
    then obtain r where r: "r \<in> set (fixed_rows df)" "e = (items ! col_a r, items ! col_b r)"
      unfolding es_set by blast
    then have "r \<in> set df" by (simp add: set_fixed_rows)
    then obtain i j where ij: "r = mk (i, j)" "i < n" "j < n" "candidate items i j"
      unfolding df_set by blast
    have "e = (items ! i, items ! j)" using r(2) ij(1) by (simp add: mk_def)
    then show "e \<in> {(items ! i, items ! j) | i j. i < n \<and> j < n \<and> candidate items i j \<and>
       (\<forall>j' < n. candidate items i j' \<and> name (items ! j') = name (items ! j)
            \<longrightarrow> offset_le (node_start (items ! j)) (node_end (items ! j')))}"
      using keep [OF ij(2,3,4)] r(1) ij by blast
  next
    fix e
    assume "e \<in> {(items ! i, items ! j) | i j. i < n \<and> j < n \<and> candidate items i j \<and>
       (\<forall>j' < n. candidate items i j' \<and> name (items ! j') = name (items ! j)
            \<longrightarrow> offset_le (node_start (items ! j)) (node_end (items ! j')))}"
    then obtain i j where ij: "e = (items ! i, items ! j)" "i < n" "j < n" "candidate items i j"
      and all: "\<forall>j' < n. candidate items i j' \<and> name (items ! j') = name (items ! j)
            \<longrightarrow> offset_le (node_start (items ! j)) (node_end (items ! j'))"
      by blast
    have "mk (i, j) \<in> set (fixed_rows df)" using keep [OF ij(2,3,4)] all by blast
    moreover have "e = (items ! col_a (mk (i, j)), items ! col_b (mk (i, j)))"
      using ij(1) by (simp add: mk_def)
    ultimately show "e \<in> set es" unfolding es_set by blast
  qed
  then show ?thesis by (simp add: items_def n_def)
qed

theorem edges_from_dataframe_retains_witness:
  "set [(noun1, noun2), (noun1, verb), (verb, noun2)] =
    {(get_elementary_nodes example_document ! i, get_elementary_nodes example_document ! j) | i j.
       i < length (get_elementary_nodes example_document) \<and>
       j < length (get_elementary_nodes example_document) \<and>
       candidate (get_elementary_nodes example_document) i j \<and>
       (\<forall>j' < length (get_elementary_nodes example_document).
           candidate (get_elementary_nodes example_document) i j' \<and>
           name (get_elementary_nodes example_document ! j') = name (get_elementary_nodes example_document ! j)
           \<longrightarrow> offset_le (node_start (get_elementary_nodes example_document ! j))
                          (node_end (get_elementary_nodes example_document ! j')))}"
proof -
  have spans: "\<forall>ab \<in> set (concat (map snd example_document)). fst ab < snd ab"
    by (simp add: example_document_def)
  have res: "get_dense_matrix example_document
      = Inr [[False, True, True], [False, False, False], [False, True, False]]"
    by code_simp
  have es: "edges_from_dataframe
      (matrix_to_dataframe [[False, True, True], [False, False, False], [False, True, False]]
         (get_elementary_nodes example_document))
      (get_elementary_nodes example_document) = Inr [(noun1, noun2), (noun1, verb), (verb, noun2)]"
    by code_simp
  show ?thesis
    by (rule edges_from_dataframe_retains [OF spans res es])
qed

text \<open>
  The claim as it is written fails on the example document: the candidates of
  \<open>NOUN[0,5)\<close> are \<open>NOUN[9,14)\<close> and \<open>VERB[5,9)\<close>, the smallest start among them is 5,
  and \<open>NOUN[9,14)\<close>, which starts later, keeps its edge from \<open>NOUN[0,5)\<close>.
\<close>

theorem later_candidate_keeps_its_edge:
  "edges_from_dataframe
      (matrix_to_dataframe (projr (get_dense_matrix example_document))
         (get_elementary_nodes example_document))
      (get_elementary_nodes example_document) = Inr [(noun1, noun2), (noun1, verb), (verb, noun2)]
   \<and> get_elementary_nodes example_document = [noun1, noun2, verb]
   \<and> candidate [noun1, noun2, verb] 0 1
   \<and> candidate [noun1, noun2, verb] 0 2
   \<and> \<not> candidate [noun1, noun2, verb] 0 0
   \<and> node_start verb = Fin 5
   \<and> node_start noun2 = Fin 9
   \<and> offset_less (node_start verb) (node_start noun2)"
  by code_simp

section \<open>Properties: remove_shortcuts\<close>

lemma node_eq_key: "node_eq x y \<longleftrightarrow> key x = key y"
  by (auto simp: node_eq_def key_def)


subsection \<open>Floyd-Warshall: an entry is 1 exactly for an edge off the diagonal\<close>










subsection \<open>The edges that remove_shortcuts removes\<close>












subsection \<open>Reachability on an acyclic graph\<close>



lemma shortcut_key:
  "key (fst e) = key (fst e') \<Longrightarrow> key (snd e) = key (snd e') \<Longrightarrow> shortcut g e = shortcut g e'"
  by (simp add: shortcut_def node_eq_key)





text \<open>
  Claim C4, on the code. \<open>remove_shortcuts\<close> compares the matrix of path lengths with 1,
  so its \<open>reachability_matrix\<close> is the adjacency matrix and only an edge with a path of
  two edges beside it is removed. On the chain \<open>A -> B -> C -> D\<close> with the further edge
  \<open>A -> D\<close> nothing is removed: \<open>A -> D\<close> stays, though \<open>A\<close> reaches \<open>B\<close> and \<open>B\<close>
  reaches \<open>D\<close>. On the example document the graph keeps \<open>START -> END\<close> beside the
  path through the three elementary nodes.
\<close>

theorem remove_shortcuts_keeps_long_shortcut:
  "remove_shortcuts chain_graph = chain_graph
   \<and> has_edge (remove_shortcuts chain_graph) node_a node_d
   \<and> has_edge (remove_shortcuts chain_graph) node_a node_b
   \<and> has_edge (remove_shortcuts chain_graph) node_b node_c
   \<and> has_edge (remove_shortcuts chain_graph) node_c node_d
   \<and> graph_from_document example_document = Inr example_graph
   \<and> has_edge example_graph START END
   \<and> has_edge example_graph START noun1
   \<and> has_edge example_graph noun1 verb
   \<and> has_edge example_graph verb noun2
   \<and> has_edge example_graph noun2 END"
  by code_simp

section \<open>Properties: the order of the nonterminals\<close>

lemma upd_if: "(fst kv, if order = [] then snd kv else filter (\<lambda>s. s \<notin> set order) (snd kv)) = upd order kv"
  by (simp add: upd_def)

lemma order_scan_cases:
  "(order_scan order seen todo = (order, seen @ map (upd order) todo) \<and> (\<forall>kv \<in> set todo. \<not> ready order kv))
   \<or> (\<exists>pre kv post. todo = pre @ kv # post \<and> ready order kv \<and> (\<forall>x \<in> set pre. \<not> ready order x)
        \<and> order_scan order seen todo = (order @ [fst kv], seen @ map (upd order) pre @ kv # post))"
proof (induction todo arbitrary: seen)
  case Nil
  then show ?case by simp
next
  case (Cons kv rest)
  show ?case
  proof (cases "ready order kv")
    case True
    then have "order_scan order seen (kv # rest) = (order @ [fst kv], seen @ map (upd order) [] @ kv # rest)"
      by (simp add: ready_def)
    then show ?thesis using True by (metis append_Nil empty_iff list.set(1))
  next
    case False
    then have step: "order_scan order seen (kv # rest) = order_scan order (seen @ [upd order kv]) rest"
      by (auto simp: ready_def upd_def)
    from Cons.IH [of "seen @ [upd order kv]"] show ?thesis
    proof
      assume "order_scan order (seen @ [upd order kv]) rest
          = (order, (seen @ [upd order kv]) @ map (upd order) rest) \<and> (\<forall>kv \<in> set rest. \<not> ready order kv)"
      then show ?thesis using step False by simp
    next
      assume "\<exists>pre kv' post. rest = pre @ kv' # post \<and> ready order kv' \<and> (\<forall>x \<in> set pre. \<not> ready order x)
        \<and> order_scan order (seen @ [upd order kv]) rest
           = (order @ [fst kv'], (seen @ [upd order kv]) @ map (upd order) pre @ kv' # post)"
      then obtain pre kv' post where r: "rest = pre @ kv' # post" "ready order kv'"
        "\<forall>x \<in> set pre. \<not> ready order x"
        "order_scan order (seen @ [upd order kv]) rest
           = (order @ [fst kv'], (seen @ [upd order kv]) @ map (upd order) pre @ kv' # post)"
        by blast
      have "kv # rest = (kv # pre) @ kv' # post" using r(1) by simp
      moreover have "\<forall>x \<in> set (kv # pre). \<not> ready order x" using r(3) False by simp
      moreover have "order_scan order seen (kv # rest)
          = (order @ [fst kv'], seen @ map (upd order) (kv # pre) @ kv' # post)"
        using step r(4) by simp
      ultimately show ?thesis using r(2) by blast
    qed
  qed
qed

lemma pass_entries:
  "length (snd (order_scan order [] deps)) = length deps \<and>
   (\<forall>i < length deps. snd (order_scan order [] deps) ! i = deps ! i
        \<or> snd (order_scan order [] deps) ! i = upd order (deps ! i))"
proof -
  from order_scan_cases [of order "[]" deps] show ?thesis
  proof
    assume "order_scan order [] deps = (order, [] @ map (upd order) deps) \<and> (\<forall>kv \<in> set deps. \<not> ready order kv)"
    then show ?thesis by simp
  next
    assume "\<exists>pre kv post. deps = pre @ kv # post \<and> ready order kv \<and> (\<forall>x \<in> set pre. \<not> ready order x)
        \<and> order_scan order [] deps = (order @ [fst kv], [] @ map (upd order) pre @ kv # post)"
    then obtain pre kv post where d: "deps = pre @ kv # post"
      and r: "snd (order_scan order [] deps) = map (upd order) pre @ kv # post"
      by auto
    have len: "length (map (upd order) pre @ kv # post) = length deps"
      by (simp add: d)
    have ent: "(map (upd order) pre @ kv # post) ! i = deps ! i
        \<or> (map (upd order) pre @ kv # post) ! i = upd order (deps ! i)" if "i < length deps" for i
    proof (cases "i < length pre")
      case True
      then show ?thesis by (simp add: d nth_append)
    next
      case False
      then show ?thesis by (simp add: d nth_append)
    qed
    show ?thesis unfolding r using len ent by blast
  qed
qed

lemma pass_order:
  "fst (order_scan order [] deps) = order \<and> (\<forall>kv \<in> set deps. \<not> ready order kv)
      \<and> snd (order_scan order [] deps) = map (upd order) deps
   \<or> (\<exists>i < length deps. ready order (deps ! i) \<and> fst (order_scan order [] deps) = order @ [fst (deps ! i)])"
proof -
  from order_scan_cases [of order "[]" deps] show ?thesis
  proof
    assume "order_scan order [] deps = (order, [] @ map (upd order) deps) \<and> (\<forall>kv \<in> set deps. \<not> ready order kv)"
    then show ?thesis by simp
  next
    assume "\<exists>pre kv post. deps = pre @ kv # post \<and> ready order kv \<and> (\<forall>x \<in> set pre. \<not> ready order x)
        \<and> order_scan order [] deps = (order @ [fst kv], [] @ map (upd order) pre @ kv # post)"
    then obtain pre kv post where d: "deps = pre @ kv # post" and rd: "ready order kv"
      and r: "order_scan order [] deps = (order @ [fst kv], map (upd order) pre @ kv # post)"
      by auto
    have "length pre < length deps" "deps ! length pre = kv" by (simp_all add: d)
    then show ?thesis using rd r by auto
  qed
qed

lemma topo_snoc:
  assumes "topo deps0 order" "k \<notin> set order" "i < length deps0" "fst (deps0 ! i) = k"
    "set (snd (deps0 ! i)) \<subseteq> set order"
  shows "topo deps0 (order @ [k])"
  unfolding topo_def
proof (intro conjI allI impI)
  show "distinct (order @ [k])" using assms(1,2) by (simp add: topo_def)
next
  fix j assume j: "j < length (order @ [k])"
  show "\<exists>i < length deps0. fst (deps0 ! i) = (order @ [k]) ! j
          \<and> set (snd (deps0 ! i)) \<subseteq> set (take j (order @ [k]))"
  proof (cases "j < length order")
    case True
    then show ?thesis using assms(1) by (simp add: topo_def nth_append)
  next
    case False
    then have "j = length order" using j by simp
    then show ?thesis using assms(3,4,5) by auto
  qed
qed

lemma topo_subset:
  assumes "topo deps0 order"
  shows "set order \<subseteq> fst ` set deps0"
proof
  fix x assume "x \<in> set order"
  then obtain j where "j < length order" "order ! j = x" by (auto simp: in_set_conv_nth)
  then obtain i where "i < length deps0" "fst (deps0 ! i) = x"
    using assms unfolding topo_def by blast
  then show "x \<in> fst ` set deps0" by (metis imageI nth_mem)
qed

lemma pass_inv:
  assumes "scan_inv deps0 order deps"
  shows "scan_inv deps0 (fst (order_scan order [] deps)) (snd (order_scan order [] deps))"
proof -
  let ?o = "fst (order_scan order [] deps)"
  let ?d = "snd (order_scan order [] deps)"
  have len: "length deps = length deps0" using assms by (simp add: scan_inv_def)
  have old: "fst (deps ! i) = fst (deps0 ! i)" "set (snd (deps ! i)) \<subseteq> set (snd (deps0 ! i))"
    "set (snd (deps0 ! i)) - set order \<subseteq> set (snd (deps ! i))" if "i < length deps0" for i
    using assms that by (simp_all add: scan_inv_def)
  have t: "topo deps0 order" using assms by (simp add: scan_inv_def)
  have ord: "topo deps0 ?o \<and> set order \<subseteq> set ?o"
  proof -
    from pass_order [of order deps] show ?thesis
    proof
      assume "fst (order_scan order [] deps) = order \<and> (\<forall>kv \<in> set deps. \<not> ready order kv)
        \<and> snd (order_scan order [] deps) = map (upd order) deps"
      then show ?thesis using t by simp
    next
      assume "\<exists>i < length deps. ready order (deps ! i) \<and> fst (order_scan order [] deps) = order @ [fst (deps ! i)]"
      then obtain i where i: "i < length deps" "ready order (deps ! i)"
        "?o = order @ [fst (deps ! i)]" by blast
      have i0: "i < length deps0" using i(1) len by simp
      have e: "snd (deps ! i) = []" and k: "fst (deps ! i) \<notin> set order"
        using i(2) by (simp_all add: ready_def)
      have sub: "set (snd (deps0 ! i)) \<subseteq> set order"
        using old(3) [OF i0] e by auto
      have "topo deps0 (order @ [fst (deps ! i)])"
        by (rule topo_snoc [OF t k i0 old(1) [OF i0, symmetric] sub])
      then show ?thesis unfolding i(3) by auto
    qed
  qed
  have ent: "fst (?d ! i) = fst (deps0 ! i) \<and> set (snd (?d ! i)) \<subseteq> set (snd (deps0 ! i))
      \<and> set (snd (deps0 ! i)) - set ?o \<subseteq> set (snd (?d ! i))" if i: "i < length deps0" for i
  proof -
    have "?d ! i = deps ! i \<or> ?d ! i = upd order (deps ! i)"
      using pass_entries [of order deps] i len by simp
    then show ?thesis
    proof
      assume "?d ! i = deps ! i"
      then show ?thesis using old [OF i] ord by auto
    next
      assume "?d ! i = upd order (deps ! i)"
      then show ?thesis using old [OF i] ord by (auto simp: upd_def)
    qed
  qed
  show ?thesis
    unfolding scan_inv_def using ord ent pass_entries [of order deps] len by simp
qed

lemma order_loop_sound:
  assumes "order_loop n order deps = Some y" "scan_inv deps0 order deps"
  shows "length y = n \<and> topo deps0 y"
  using assms
proof (induction n order deps y rule: order_loop.raw_induct)
  case (1 order_loop n order deps y)
  show ?case
  proof (cases "length order = n")
    case True
    then have "y = order" using "1.hyps" by simp
    then show ?thesis using True "1.prems"(2) by (simp add: scan_inv_def)
  next
    case False
    then have a: "order_loop n (fst (order_scan order [] deps)) (snd (order_scan order [] deps)) = Some y"
      using "1.hyps" by simp
    have b: "Spec2Isabelle.order_loop n (fst (order_scan order [] deps)) (snd (order_scan order [] deps)) = Some y"
      using "1.prems"(1) False by (subst (asm) order_loop.simps) simp
    show ?thesis
      using "1.IH" [OF a b pass_inv [OF "1.prems"(2)]] .
  qed
qed (rule assms(1))

lemma topo_length:
  assumes "topo deps0 order" "distinct (map fst deps0)"
  shows "length order \<le> length deps0"
proof -
  have "card (set order) \<le> card (fst ` set deps0)"
    by (rule card_mono) (use topo_subset [OF assms(1)] in auto)
  moreover have "card (set order) = length order"
    using assms(1) by (simp add: topo_def distinct_card)
  moreover have "card (fst ` set deps0) = length deps0"
    using assms(2) distinct_card [of "map fst deps0"] by simp
  ultimately show ?thesis by simp
qed

lemma exists_ready_after_pass:
  assumes dist: "distinct (map fst deps0)"
    and closed: "\<forall>e \<in> set deps0. set (snd e) \<subseteq> fst ` set deps0"
    and acyc: "acyclic (deps_rel deps0)"
    and inv: "scan_inv deps0 order deps"
    and short: "length order < length deps0"
  shows "\<exists>kv \<in> set (map (upd order) deps). ready order kv"
proof -
  let ?S = "fst ` set deps0 - set order"
  have t: "topo deps0 order" using inv by (simp add: scan_inv_def)
  have len: "length deps = length deps0" using inv by (simp add: scan_inv_def)
  have "card (set order) < card (fst ` set deps0)"
    using short t dist distinct_card [of "map fst deps0"] by (simp add: topo_def distinct_card)
  then have "?S \<noteq> {}" by (metis Diff_eq_empty_iff card_mono finite_imageI finite_set not_less)
  then obtain x where x: "x \<in> ?S" by blast
  have fin: "finite (deps_rel deps0)"
  proof -
    have "deps_rel deps0 \<subseteq> fst ` set deps0 \<times> \<Union> (set ` snd ` set deps0)"
      by (force simp: deps_rel_def)
    then show ?thesis by (rule finite_subset) auto
  qed
  have "wf ((deps_rel deps0)\<inverse>)"
    by (rule finite_acyclic_wf_converse [OF fin acyc])
  then obtain z where z: "z \<in> ?S" "\<And>y. (y, z) \<in> (deps_rel deps0)\<inverse> \<Longrightarrow> y \<notin> ?S"
    using wfE_min [of "(deps_rel deps0)\<inverse>" x ?S] x by blast
  obtain i where i: "i < length deps0" "fst (deps0 ! i) = z"
    using z(1) by (auto simp: in_set_conv_nth)
  have sub: "set (snd (deps0 ! i)) \<subseteq> set order"
  proof
    fix s assume s: "s \<in> set (snd (deps0 ! i))"
    have "(z, s) \<in> deps_rel deps0"
      unfolding deps_rel_def using s i by (metis (mono_tags, lifting) mem_Collect_eq nth_mem)
    then have "s \<notin> ?S" using z(2) by blast
    moreover have "s \<in> fst ` set deps0" using closed s i(1) by (meson nth_mem subsetD)
    ultimately show "s \<in> set order" by blast
  qed
  have old: "fst (deps ! i) = fst (deps0 ! i)" "set (snd (deps ! i)) \<subseteq> set (snd (deps0 ! i))"
    using inv i(1) by (simp_all add: scan_inv_def)
  have "ready order (upd order (deps ! i))"
    unfolding ready_def upd_def using old sub z(1) i(2) by (auto simp: filter_empty_conv)
  moreover have "upd order (deps ! i) \<in> set (map (upd order) deps)"
    using i(1) len by simp
  ultimately show ?thesis by blast
qed

lemma order_loop_terminates:
  assumes dist: "distinct (map fst deps0)"
    and closed: "\<forall>e \<in> set deps0. set (snd e) \<subseteq> fst ` set deps0"
    and acyc: "acyclic (deps_rel deps0)"
    and inv: "scan_inv deps0 order deps"
  shows "\<exists>y. order_loop (length deps0) order deps = Some y"
  using inv
proof (induction "2 * (length deps0 - length order) + (if \<exists>kv \<in> set deps. ready order kv then 0 else 1)"
    arbitrary: order deps rule: less_induct)
  case less
  let ?n = "length deps0"
  let ?o = "fst (order_scan order [] deps)"
  let ?d = "snd (order_scan order [] deps)"
  have t: "topo deps0 order" using less.prems by (simp add: scan_inv_def)
  have le: "length order \<le> ?n" by (rule topo_length [OF t dist])
  show ?case
  proof (cases "length order = ?n")
    case True
    then show ?thesis by (subst order_loop.simps) simp
  next
    case False
    then have short: "length order < ?n" using le by simp
    have inv': "scan_inv deps0 ?o ?d" by (rule pass_inv [OF less.prems])
    have le': "length ?o \<le> ?n"
      using inv' topo_length [OF _ dist] by (simp add: scan_inv_def)
    have dec: "2 * (?n - length ?o) + (if \<exists>kv \<in> set ?d. ready ?o kv then 0 else 1)
        < 2 * (?n - length order) + (if \<exists>kv \<in> set deps. ready order kv then 0 else 1)"
    proof -
      from pass_order [of order deps] show ?thesis
      proof
        assume a: "?o = order \<and> (\<forall>kv \<in> set deps. \<not> ready order kv) \<and> ?d = map (upd order) deps"
        have "\<exists>kv \<in> set ?d. ready ?o kv"
          using exists_ready_after_pass [OF dist closed acyc less.prems short] a by simp
        then show ?thesis using a by simp
      next
        assume "\<exists>i < length deps. ready order (deps ! i) \<and> ?o = order @ [fst (deps ! i)]"
        then have "length ?o = Suc (length order)" by auto
        then show ?thesis using le' by auto
      qed
    qed
    obtain y where "order_loop ?n ?o ?d = Some y"
      using less.hyps [OF dec inv'] by blast
    then show ?thesis using False by (subst order_loop.simps) simp
  qed
qed

lemma topo_edge:
  assumes t: "topo deps0 y" and dist: "distinct (map fst deps0)"
    and ab: "(a, b) \<in> deps_rel deps0" and jl: "j < length y" and ja: "y ! j = a"
  shows "\<exists>j' < j. y ! j' = b"
proof -
  obtain e where e: "e \<in> set deps0" "fst e = a" "b \<in> set (snd e)"
    using ab unfolding deps_rel_def by blast
  obtain i where i: "i < length deps0" "fst (deps0 ! i) = y ! j"
    "set (snd (deps0 ! i)) \<subseteq> set (take j y)"
    using t jl unfolding topo_def by blast
  have "deps0 ! i \<in> set deps0" using i(1) by simp
  then have "e = deps0 ! i"
    using dist e(1,2) i(2) ja by (metis distinct_map inj_onD)
  then have "b \<in> set (take j y)" using e(3) i(3) by blast
  then show ?thesis by (auto simp: in_set_conv_nth)
qed

lemma topo_full_set:
  assumes t: "topo deps0 y" and full: "length y = length deps0" and dist: "distinct (map fst deps0)"
  shows "set y = fst ` set deps0"
proof (rule card_subset_eq)
  show "finite (fst ` set deps0)" by simp
  show "set y \<subseteq> fst ` set deps0" by (rule topo_subset [OF t])
  show "card (set y) = card (fst ` set deps0)"
    using t full dist distinct_card [of "map fst deps0"] by (simp add: topo_def distinct_card)
qed

lemma topo_acyclic:
  assumes t: "topo deps0 y" and full: "length y = length deps0" and dist: "distinct (map fst deps0)"
  shows "acyclic (deps_rel deps0)"
proof -
  have path: "(a, b) \<in> (deps_rel deps0)\<^sup>+ \<Longrightarrow> j < length y \<Longrightarrow> y ! j = a \<Longrightarrow> \<exists>j' < j. y ! j' = b"
    for a b j
  proof (induction arbitrary: j rule: trancl_induct)
    case (base b)
    then show ?case using topo_edge [OF t dist] by blast
  next
    case (step b c)
    obtain j' where "j' < j" "y ! j' = b" using step.IH [OF step.prems] by blast
    have "j' < length y" using \<open>j' < j\<close> step.prems(1) by simp
    then obtain j'' where "j'' < j'" "y ! j'' = c"
      using topo_edge [OF t dist step.hyps(2) _ \<open>y ! j' = b\<close>] by blast
    then have "j'' < j" using \<open>j' < j\<close> by simp
    then show ?case using \<open>y ! j'' = c\<close> by blast
  qed
  show ?thesis
    unfolding acyclic_def
  proof (intro allI notI)
    fix x assume x: "(x, x) \<in> (deps_rel deps0)\<^sup>+"
    then obtain z where "(x, z) \<in> deps_rel deps0" by (auto dest: tranclD)
    then have "x \<in> fst ` set deps0"
      unfolding deps_rel_def by force
    then have "x \<in> set y" using topo_full_set [OF t full dist] by simp
    then obtain j where j: "j < length y" "y ! j = x"
      by (auto simp: in_set_conv_nth)
    then obtain j' where "j' < j" "y ! j' = x" using path [OF x] by blast
    then show False using j t by (auto simp: topo_def nth_eq_iff_index_eq)
  qed
qed

lemma set_py_unique: "set (py_unique xs) = set xs"
  by (simp add: py_unique_def)

lemma distinct_py_unique: "distinct (py_unique xs)"
  by (simp add: py_unique_def)

lemma rules_deps_keys: "map fst (rules_deps rs ts) = py_unique (map lhs rs)"
  by (simp add: rules_deps_def comp_def)

lemma in_deps_rel_rules:
  "(k, s) \<in> deps_rel (rules_deps rs ts) \<longleftrightarrow> (\<exists>r \<in> set rs. lhs r = k \<and> s \<in> set (rhs r) \<and> s \<notin> set ts)"
proof
  assume "(k, s) \<in> deps_rel (rules_deps rs ts)"
  then obtain e where e: "e \<in> set (rules_deps rs ts)" "fst e = k" "s \<in> set (snd e)"
    unfolding deps_rel_def by auto
  from e(1) obtain k' where k': "k' \<in> lhs ` set rs"
    "e = (k', filter (\<lambda>s. s \<notin> set ts) (py_unique (concat (map rhs (filter (\<lambda>r. lhs r = k') rs)))))"
    unfolding rules_deps_def by (auto simp: set_py_unique)
  have "k' = k" using e(2) k'(2) by simp
  then have "s \<in> set (filter (\<lambda>s. s \<notin> set ts) (py_unique (concat (map rhs (filter (\<lambda>r. lhs r = k) rs)))))"
    using e(3) k'(2) by simp
  then show "\<exists>r \<in> set rs. lhs r = k \<and> s \<in> set (rhs r) \<and> s \<notin> set ts"
    by (auto simp: set_py_unique)
next
  assume "\<exists>r \<in> set rs. lhs r = k \<and> s \<in> set (rhs r) \<and> s \<notin> set ts"
  then obtain r where r: "r \<in> set rs" "lhs r = k" "s \<in> set (rhs r)" "s \<notin> set ts" by blast
  let ?e = "(k, filter (\<lambda>s. s \<notin> set ts) (py_unique (concat (map rhs (filter (\<lambda>r. lhs r = k) rs)))))"
  have "?e \<in> set (rules_deps rs ts)"
    unfolding rules_deps_def using r(1,2) by (auto simp: set_py_unique)
  moreover have "s \<in> set (snd ?e)" using r by (auto simp: set_py_unique)
  ultimately show "(k, s) \<in> deps_rel (rules_deps rs ts)"
    unfolding deps_rel_def by force
qed

lemma rules_deps_rel: "deps_rel (rules_deps rs (grammar_terminals rs)) = dep_rel rs"
proof -
  have "(k, s) \<in> deps_rel (rules_deps rs (grammar_terminals rs)) \<longleftrightarrow> (k, s) \<in> dep_rel rs" for k s
    unfolding in_deps_rel_rules dep_rel_def grammar_terminals_def
    by (auto simp: set_py_unique)
  then show ?thesis by auto
qed

lemma rules_deps_closed:
  "\<forall>e \<in> set (rules_deps rs (grammar_terminals rs)).
      set (snd e) \<subseteq> fst ` set (rules_deps rs (grammar_terminals rs))"
proof (intro ballI subsetI)
  fix e s
  assume "e \<in> set (rules_deps rs (grammar_terminals rs))" "s \<in> set (snd e)"
  then have "(fst e, s) \<in> deps_rel (rules_deps rs (grammar_terminals rs))"
    unfolding deps_rel_def by blast
  then have "s \<in> lhs ` set rs" unfolding rules_deps_rel dep_rel_def by blast
  moreover have "fst ` set (rules_deps rs (grammar_terminals rs)) = lhs ` set rs"
    using rules_deps_keys [of rs "grammar_terminals rs"]
    by (metis list.set_map set_py_unique)
  ultimately show "s \<in> fst ` set (rules_deps rs (grammar_terminals rs))" by simp
qed

lemma scan_inv_init: "scan_inv deps0 [] deps0"
  by (simp add: scan_inv_def topo_def)

lemma topo_valid_order:
  assumes t: "topo (rules_deps rs (grammar_terminals rs)) y"
    and full: "length y = length (rules_deps rs (grammar_terminals rs))"
  shows "valid_order rs y"
proof -
  let ?deps0 = "rules_deps rs (grammar_terminals rs)"
  have dist: "distinct (map fst ?deps0)"
    by (simp add: rules_deps_keys distinct_py_unique)
  have "set y = fst ` set ?deps0" by (rule topo_full_set [OF t full dist])
  also have "\<dots> = lhs ` set rs"
    using rules_deps_keys [of rs "grammar_terminals rs"] by (metis list.set_map set_py_unique)
  finally have sety: "set y = lhs ` set rs" .
  have prec: "s \<in> set (take j y)" if jl: "j < length y" and js: "(y ! j, s) \<in> dep_rel rs" for j s
  proof -
    have "(y ! j, s) \<in> deps_rel ?deps0" using js by (simp add: rules_deps_rel)
    then obtain j' where "j' < j" "y ! j' = s"
      using topo_edge [OF t dist _ jl refl] by blast
    then show ?thesis using jl by (auto simp: in_set_conv_nth)
  qed
  show ?thesis
    unfolding valid_order_def using t sety prec by (auto simp: topo_def)
qed

lemma Grammar_unfold:
  "Grammar start rs =
     (case order_loop (length (rules_deps rs (grammar_terminals rs))) []
             (rules_deps rs (grammar_terminals rs)) of
        None \<Rightarrow> None
      | Some order \<Rightarrow>
          Some \<lparr>rules = rs, start_symbol = start, nonterminals = py_unique (map lhs rs),
                terminals = grammar_terminals rs, nonterminal_dependency_order = order\<rparr>)"
proof -
  have "length (rules_deps rs (grammar_terminals rs)) = length (py_unique (map lhs rs))"
    using rules_deps_keys [of rs "grammar_terminals rs"] by (metis length_map)
  then show ?thesis
    by (simp add: Grammar_def Let_def get_rule_application_order_def grammar_terminals_def
        split: option.splits)
qed

lemma grammar_returns_on_acyclic:
  assumes "acyclic (dep_rel rs)"
  shows "\<exists>g. Grammar start rs = Some g \<and> valid_order rs (nonterminal_dependency_order g)"
proof -
  let ?deps0 = "rules_deps rs (grammar_terminals rs)"
  have dist: "distinct (map fst ?deps0)"
    by (simp add: rules_deps_keys distinct_py_unique)
  have "acyclic (deps_rel ?deps0)" using assms by (simp add: rules_deps_rel)
  then obtain y where y: "order_loop (length ?deps0) [] ?deps0 = Some y"
    using order_loop_terminates [OF dist rules_deps_closed _ scan_inv_init] by blast
  have "length y = length ?deps0 \<and> topo ?deps0 y"
    by (rule order_loop_sound [OF y scan_inv_init])
  then have "valid_order rs y" using topo_valid_order by blast
  then show ?thesis unfolding Grammar_unfold y by simp
qed

lemma grammar_loops_on_cycle:
  assumes "\<not> acyclic (dep_rel rs)"
  shows "Grammar start rs = None"
proof (cases "order_loop (length (rules_deps rs (grammar_terminals rs))) []
    (rules_deps rs (grammar_terminals rs))")
  case None
  then show ?thesis unfolding Grammar_unfold by simp
next
  case (Some y)
  let ?deps0 = "rules_deps rs (grammar_terminals rs)"
  have dist: "distinct (map fst ?deps0)"
    by (simp add: rules_deps_keys distinct_py_unique)
  have "length y = length ?deps0 \<and> topo ?deps0 y"
    by (rule order_loop_sound [OF Some scan_inv_init])
  then have "acyclic (deps_rel ?deps0)" using topo_acyclic [OF _ _ dist] by blast
  then show ?thesis using assms by (simp add: rules_deps_rel)
qed

lemma two_level_rules_acyclic: "acyclic (dep_rel two_level_rules)"
proof -
  have "dep_rel two_level_rules \<subseteq> measure (\<lambda>x. if x = ''S'' then 0 else 1)"
    by (auto simp: dep_rel_def two_level_rules_def Rule_def)
  then show ?thesis
    by (rule acyclic_subset [OF wf_acyclic [OF wf_measure]])
qed

lemma cyclic_rules_cyclic: "\<not> acyclic (dep_rel cyclic_rules)"
proof -
  have "(''A'', ''B'') \<in> dep_rel cyclic_rules"
    unfolding dep_rel_def cyclic_rules_def Rule_def by force
  moreover have "(''B'', ''A'') \<in> dep_rel cyclic_rules"
    unfolding dep_rel_def cyclic_rules_def Rule_def by force
  ultimately have "(''A'', ''A'') \<in> (dep_rel cyclic_rules)\<^sup>+" by auto
  then show ?thesis by (auto simp: acyclic_def)
qed

text \<open>
  Claim C3 (amended). For every rule set whose nonterminal-dependency relation has no
  cycle, constructing the grammar returns, and the order it computes lists every
  nonterminal once, after all the nonterminals it depends on. For every rule set whose
  relation has a cycle (a nonterminal that uses itself included), constructing the
  grammar does not return: \<open>get_rule_application_order\<close> has no check for cycles, its
  loop runs forever and no error is reported.
\<close>

theorem grammar_order:
  "(acyclic (dep_rel rs) \<longrightarrow>
      (\<exists>g. Grammar start rs = Some g \<and> valid_order rs (nonterminal_dependency_order g)))
   \<and> (\<not> acyclic (dep_rel rs) \<longrightarrow> Grammar start rs = None)"
  using grammar_returns_on_acyclic [of rs start] grammar_loops_on_cycle [of rs start] by blast

theorem grammar_order_witness:
  "(\<exists>g. Grammar ''S'' two_level_rules = Some g
        \<and> valid_order two_level_rules (nonterminal_dependency_order g))
   \<and> nonterminal_dependency_order (the (Grammar ''S'' two_level_rules)) = [''NP'', ''S'']
   \<and> Grammar ''A'' cyclic_rules = None"
proof -
  have "nonterminal_dependency_order (the (Grammar ''S'' two_level_rules)) = [''NP'', ''S'']"
    by code_simp
  then show ?thesis
    using grammar_order [of two_level_rules "''S''"] grammar_order [of cyclic_rules "''A''"]
      two_level_rules_acyclic cyclic_rules_cyclic
    by blast
qed

text \<open>
  The claim as it is written fails on the rule set \<open>A -> B\<close>, \<open>B -> A\<close>: its
  dependency relation has a cycle, and the construction of the grammar neither returns a
  grammar nor reports an error; it does not return.
\<close>

theorem cyclic_grammar_does_not_return:
  "\<not> acyclic (dep_rel cyclic_rules) \<and> Grammar ''A'' cyclic_rules = None"
  using cyclic_rules_cyclic grammar_loops_on_cycle [of cyclic_rules "''A''"] by blast


section \<open>Properties: the selected tree\<close>

lemma add_node_nodes: "g_nodes (add_node n g) = (if has_node g n then g_nodes g else g_nodes g @ [n])"
  by (simp add: add_node_def)

lemma add_node_edges: "g_edges (add_node n g) = g_edges g"
  by (simp add: add_node_def)

lemma add_node_prefix: "\<exists>ys. g_nodes (add_node n g) = g_nodes g @ ys"
  by (simp add: add_node_nodes)

lemma add_edge_prefix: "\<exists>ys. g_nodes (add_edge u v g) = g_nodes g @ ys"
proof -
  obtain ys where "g_nodes (add_node u g) = g_nodes g @ ys" using add_node_prefix by blast
  moreover obtain zs where "g_nodes (add_node v (add_node u g)) = g_nodes (add_node u g) @ zs"
    using add_node_prefix by blast
  ultimately show ?thesis by (simp add: add_edge_def Let_def)
qed

lemma add_edge_edges: "set (g_edges (add_edge u v g)) \<subseteq> insert (u, v) (set (g_edges g))"
  by (auto simp: add_edge_def Let_def add_node_edges)

lemma add_edges_from_prefix: "\<exists>ys. g_nodes (add_edges_from es g) = g_nodes g @ ys"
  unfolding add_edges_from_def
proof (induction es arbitrary: g)
  case Nil
  then show ?case by simp
next
  case (Cons e es)
  obtain ys where "g_nodes (add_edge (fst e) (snd e) g) = g_nodes g @ ys"
    using add_edge_prefix by blast
  moreover obtain zs where "g_nodes (fold (\<lambda>e. add_edge (fst e) (snd e)) es (add_edge (fst e) (snd e) g))
      = g_nodes (add_edge (fst e) (snd e) g) @ zs"
    using Cons.IH by blast
  ultimately show ?case by simp
qed

lemma add_edges_from_edges: "set (g_edges (add_edges_from es g)) \<subseteq> set es \<union> set (g_edges g)"
  unfolding add_edges_from_def
proof (induction es arbitrary: g)
  case Nil
  then show ?case by simp
next
  case (Cons e es)
  have "set (g_edges (fold (\<lambda>e. add_edge (fst e) (snd e)) es (add_edge (fst e) (snd e) g)))
      \<subseteq> set es \<union> set (g_edges (add_edge (fst e) (snd e) g))"
    by (rule Cons.IH)
  then show ?case using add_edge_edges [of "fst e" "snd e" g] by auto
qed

lemma expand_sound:
  assumes "expand nodes stack graph = Some t"
  shows "(\<exists>ys. g_nodes t = g_nodes graph @ ys)
      \<and> (g_nodes graph = [] \<and> stack \<noteq> [] \<longrightarrow> g_nodes t \<noteq> [] \<and> hd (g_nodes t) = hd stack)
      \<and> ((\<forall>e \<in> set (g_edges graph). derived_edge nodes e) \<longrightarrow> (\<forall>e \<in> set (g_edges t). derived_edge nodes e))"
  using assms
proof (induction nodes stack graph t rule: expand.raw_induct)
  case (1 expand nodes stack graph t)
  show ?case
  proof (cases stack)
    case Nil
    then have "t = graph" using "1.hyps" by simp
    then show ?thesis using Nil by simp
  next
    case (Cons nd rest)
    let ?g1 = "add_node nd graph"
    let ?ds = "cand_lookup nodes nd"
    let ?g2 = "add_edges_from (map (\<lambda>i. (nd, i)) (chosen_children ?ds)) ?g1"
    obtain ys1 where ys1: "g_nodes ?g1 = g_nodes graph @ ys1" using add_node_prefix by blast
    have first: "g_nodes graph = [] \<Longrightarrow> g_nodes ?g1 = [nd]"
      by (simp add: add_node_def has_node_def)
    show ?thesis
    proof (cases "?ds = []")
      case True
      then have a: "expand nodes rest ?g1 = Some t" using "1.hyps" Cons by simp
      have b: "Spec2Isabelle.expand nodes rest ?g1 = Some t"
        using "1.prems" Cons True by (subst (asm) expand.simps) simp
      note ih = "1.IH" [OF a b]
      obtain ys where ys: "g_nodes t = g_nodes ?g1 @ ys" using ih by blast
      have "\<exists>zs. g_nodes t = g_nodes graph @ zs" using ys ys1 by simp
      moreover have "g_nodes graph = [] \<and> stack \<noteq> [] \<longrightarrow> g_nodes t \<noteq> [] \<and> hd (g_nodes t) = hd stack"
        using ys first Cons by auto
      moreover have "(\<forall>e \<in> set (g_edges graph). derived_edge nodes e)
          \<longrightarrow> (\<forall>e \<in> set (g_edges t). derived_edge nodes e)"
        using ih by (simp add: add_node_edges)
      ultimately show ?thesis by blast
    next
      case False
      then have a: "expand nodes (rest @ chosen_children ?ds) ?g2 = Some t"
        using "1.hyps" Cons by simp
      have b: "Spec2Isabelle.expand nodes (rest @ chosen_children ?ds) ?g2 = Some t"
        using "1.prems" Cons False by (subst (asm) expand.simps) simp
      note ih = "1.IH" [OF a b]
      obtain ys where ys: "g_nodes t = g_nodes ?g2 @ ys" using ih by blast
      obtain ys2 where ys2: "g_nodes ?g2 = g_nodes ?g1 @ ys2" using add_edges_from_prefix by blast
      have "\<exists>zs. g_nodes t = g_nodes graph @ zs" using ys ys1 ys2 by simp
      moreover have "g_nodes graph = [] \<and> stack \<noteq> [] \<longrightarrow> g_nodes t \<noteq> [] \<and> hd (g_nodes t) = hd stack"
        using ys ys2 first Cons by auto
      moreover have "(\<forall>e \<in> set (g_edges graph). derived_edge nodes e)
          \<longrightarrow> (\<forall>e \<in> set (g_edges t). derived_edge nodes e)"
      proof
        assume old: "\<forall>e \<in> set (g_edges graph). derived_edge nodes e"
        have "\<forall>e \<in> set (g_edges ?g2). derived_edge nodes e"
        proof
          fix e assume "e \<in> set (g_edges ?g2)"
          then have "e \<in> set (map (\<lambda>i. (nd, i)) (chosen_children ?ds)) \<or> e \<in> set (g_edges graph)"
            using add_edges_from_edges [of "map (\<lambda>i. (nd, i)) (chosen_children ?ds)" ?g1]
            by (auto simp: add_node_edges)
          then show "derived_edge nodes e"
            using old False by (auto simp: derived_edge_def)
        qed
        then show "\<forall>e \<in> set (g_edges t). derived_edge nodes e" using ih by blast
      qed
      ultimately show ?thesis by blast
    qed
  qed
qed (rule assms)

lemma py_max_fold:
  "foldl (\<lambda>best x. if weight x > weight best then x else best) a xs \<in> set (a # xs) \<and>
   (\<forall>x \<in> set (a # xs). weight x \<le> weight (foldl (\<lambda>best x. if weight x > weight best then x else best) a xs))"
proof (induction xs arbitrary: a)
  case Nil
  then show ?case by simp
next
  case (Cons y ys)
  show ?case
  proof (cases "weight y > weight a")
    case True
    then show ?thesis using Cons.IH [of y] by fastforce
  next
    case False
    then show ?thesis using Cons.IH [of a] by fastforce
  qed
qed

lemma py_max_weight:
  assumes "xs \<noteq> []"
  shows "py_max (\<lambda>x y. weight x > weight y) xs \<in> set xs"
    and "\<forall>x \<in> set xs. weight x \<le> weight (py_max (\<lambda>x y. weight x > weight y) xs)"
proof -
  obtain a ys where xs: "xs = a # ys" using assms by (cases xs) auto
  show "py_max (\<lambda>x y. weight x > weight y) xs \<in> set xs"
    and "\<forall>x \<in> set xs. weight x \<le> weight (py_max (\<lambda>x y. weight x > weight y) xs)"
    using py_max_fold [of a ys] by (simp_all add: py_max_def xs)
qed

lemma choose_parse_tree_sound:
  assumes "choose_parse_tree nodes g = Some (Inr t)"
  shows "g_nodes t \<noteq> []
     \<and> name (hd (g_nodes t)) = start_symbol g
     \<and> hd (g_nodes t) \<in> fst ` set nodes
     \<and> (\<forall>x \<in> set (start_nodes nodes g). weight x \<le> weight (hd (g_nodes t)))
     \<and> (\<forall>e \<in> set (g_edges t). derived_edge nodes e)"
proof -
  let ?root = "py_max (\<lambda>x y. weight x > weight y) (start_nodes nodes g)"
  have ne: "start_nodes nodes g \<noteq> []"
    using assms by (auto simp: choose_parse_tree_def split: if_splits)
  then have ex: "expand nodes [?root] DiGraph = Some t"
    using assms by (auto simp: choose_parse_tree_def split: if_splits)
  have root: "?root \<in> set (start_nodes nodes g)"
    and mx: "\<forall>x \<in> set (start_nodes nodes g). weight x \<le> weight ?root"
    using py_max_weight [OF ne] by blast+
  have hd: "g_nodes t \<noteq> []" "hd (g_nodes t) = ?root"
    using expand_sound [OF ex] by (simp_all add: DiGraph_def)
  have edges: "\<forall>e \<in> set (g_edges t). derived_edge nodes e"
    using expand_sound [OF ex] by (simp add: DiGraph_def)
  have "name ?root = start_symbol g" "?root \<in> fst ` set nodes"
    using root by (auto simp: start_nodes_def)
  then show ?thesis using hd mx edges by simp
qed




section \<open>Properties: the weight stored in the candidate map\<close>

lemma has_key_iff: "has_key m n \<longleftrightarrow> key n \<in> (\<lambda>e. key (fst e)) ` set m"
  by (force simp: has_key_def list_ex_iff node_eq_key)

lemma cand_append_keeps:
  "has_key m n \<Longrightarrow> map fst (cand_append n x m) = map fst m"
proof -
  have "map fst (map (\<lambda>e. if node_eq (fst e) n then (fst e, snd e @ [x]) else e) m) = map fst m"
    by (induction m) auto
  then show "has_key m n \<Longrightarrow> map fst (cand_append n x m) = map fst m"
    by (simp add: cand_append_def)
qed

lemma cand_append_lookup:
  "has_key m n \<Longrightarrow> cand_lookup (cand_append n x m) n = cand_lookup m n @ [x]"
proof (induction m)
  case Nil
  then show ?case by (simp add: has_key_def)
next
  case (Cons e m)
  show ?case
  proof (cases "node_eq (fst e) n")
    case True
    then show ?thesis by (simp add: cand_append_def cand_lookup_def has_key_def)
  next
    case False
    then have "has_key m n" using Cons.prems by (simp add: has_key_def)
    then show ?thesis using Cons.IH False
      by (simp add: cand_append_def cand_lookup_def has_key_def)
  qed
qed

lemma cand_append_inv:
  assumes "cand_inv m" "weight n = rule_weight (fst x)"
  shows "cand_inv (cand_append n x m)"
proof (cases "has_key m n")
  case True
  let ?f = "\<lambda>e. if node_eq (fst e) n then (fst e, snd e @ [x]) else e"
  have keys: "map (\<lambda>e. key (fst e)) (map ?f m) = map (\<lambda>e. key (fst e)) m"
    by (induction m) auto
  have "\<forall>e \<in> set (map ?f m). snd e \<noteq> [] \<and> weight (fst e) = rule_weight (fst (hd (snd e)))"
    using assms(1) by (auto simp: cand_inv_def)
  moreover have "distinct (map (\<lambda>e. key (fst e)) (map ?f m))"
    unfolding keys using assms(1) by (simp add: cand_inv_def)
  moreover have "cand_append n x m = map ?f m" using True by (simp add: cand_append_def)
  ultimately show ?thesis unfolding cand_inv_def by simp
next
  case False
  then have "key n \<notin> (\<lambda>e. key (fst e)) ` set m" by (simp add: has_key_iff)
  then show ?thesis
    using False assms unfolding cand_inv_def cand_append_def by auto
qed

lemma fold_err_inv:
  assumes "\<And>x s s'. f x s = Inr s' \<Longrightarrow> P s \<Longrightarrow> P s'"
  shows "fold_err f xs s = Inr s' \<Longrightarrow> P s \<Longrightarrow> P s'"
proof (induction xs arbitrary: s)
  case Nil
  then show ?case by simp
next
  case (Cons x xs)
  then obtain s1 where s1: "f x s = Inr s1" "fold_err f xs s1 = Inr s'"
    by (auto split: sum.splits)
  show ?case using Cons.IH [OF s1(2)] assms [OF s1(1) Cons.prems(2)] by blast
qed

lemma apply_path_inv:
  "apply_path nt r path st = Inr st' \<Longrightarrow> cand_inv (snd st) \<Longrightarrow> cand_inv (snd st')"
  by (auto simp: apply_path_def Let_def Node_def split: if_splits intro!: cand_append_inv)

lemma apply_rule_inv:
  "apply_rule nt r st = Inr st' \<Longrightarrow> cand_inv (snd st) \<Longrightarrow> cand_inv (snd st')"
  unfolding apply_rule_def
  by (auto split: sum.splits elim!: fold_err_inv [rotated 1] intro: apply_path_inv)

lemma apply_nonterminal_inv:
  "apply_nonterminal g nt st = Inr st' \<Longrightarrow> cand_inv (snd st) \<Longrightarrow> cand_inv (snd st')"
  unfolding apply_nonterminal_def
  by (auto split: sum.splits elim!: fold_err_inv [rotated 1] intro: apply_rule_inv)

lemma get_nonterminal_nodes_inv:
  assumes "get_nonterminal_nodes graph g = Inr m"
  shows "cand_inv m"
proof -
  obtain st where st: "fold_err (apply_nonterminal g) (nonterminal_dependency_order g) (graph, []) = Inr st"
    "m = snd st"
    using assms by (auto simp: get_nonterminal_nodes_def split: sum.splits)
  have init: "cand_inv (snd (graph, []))" by (simp add: cand_inv_def)
  have "cand_inv (snd st)"
    using fold_err_inv [where P = "\<lambda>s. cand_inv (snd s)" and f = "apply_nonterminal g", OF _ st(1) init]
      apply_nonterminal_inv by blast
  then show ?thesis using st(2) by simp
qed

lemma cand_lookup_entry:
  "distinct (map (\<lambda>e. key (fst e)) m) \<Longrightarrow> e \<in> set m \<Longrightarrow> cand_lookup m (fst e) = snd e"
proof (induction m)
  case Nil
  then show ?case by simp
next
  case (Cons a m)
  show ?case
  proof (cases "e = a")
    case True
    then show ?thesis by (simp add: cand_lookup_def node_eq_key)
  next
    case False
    then have e: "e \<in> set m" using Cons.prems(2) by simp
    then have "key (fst a) \<noteq> key (fst e)" using Cons.prems(1) by force
    then show ?thesis using Cons.IH e Cons.prems(1)
      by (simp add: cand_lookup_def node_eq_key)
  qed
qed

text \<open>
  Claim C10. Equality of nodes reads the span and the label and not the weight. So for
  every run of chart resolution that returns a candidate map: the map has one entry per
  span and label; the weight of the stored node of an entry is the weight of the rule of
  its first derivation; appending a derivation under a key the map already has leaves the
  stored nodes (and their weights) as they are and puts the derivation at the end of the
  list of that entry; and when the tree selector returns a tree, the root it chose has
  the greatest first-rule weight among the entries labelled with the start symbol: the
  weights of the later rules of an entry are not consulted.
\<close>

theorem stored_weight_is_first_rule:
  assumes "get_nonterminal_nodes graph g = Inr m"
  shows "(\<forall>n w. node_eq (n\<lparr>weight := w\<rparr>) n)
     \<and> distinct (map (\<lambda>e. key (fst e)) m)
     \<and> (\<forall>e \<in> set m. snd e \<noteq> [] \<and> weight (fst e) = rule_weight (fst (hd (snd e))))
     \<and> (\<forall>m' n x. has_key m' n \<longrightarrow>
            map fst (cand_append n x m') = map fst m'
            \<and> cand_lookup (cand_append n x m') n = cand_lookup m' n @ [x])
     \<and> (\<forall>t. choose_parse_tree m g = Some (Inr t) \<longrightarrow>
            weight (hd (g_nodes t)) = rule_weight (fst (hd (cand_lookup m (hd (g_nodes t)))))
            \<and> (\<forall>e \<in> set m. name (fst e) = start_symbol g \<longrightarrow>
                  rule_weight (fst (hd (snd e))) \<le> weight (hd (g_nodes t))))"
proof -
  have inv: "cand_inv m" by (rule get_nonterminal_nodes_inv [OF assms])
  then have dist: "distinct (map (\<lambda>e. key (fst e)) m)"
    and first: "\<forall>e \<in> set m. snd e \<noteq> [] \<and> weight (fst e) = rule_weight (fst (hd (snd e)))"
    by (simp_all add: cand_inv_def)
  have eq: "\<forall>n w. node_eq (n\<lparr>weight := w\<rparr>) n" by (simp add: node_eq_def)
  have app: "\<forall>m' n x. has_key m' n \<longrightarrow>
            map fst (cand_append n x m') = map fst m'
            \<and> cand_lookup (cand_append n x m') n = cand_lookup m' n @ [x]"
    using cand_append_keeps cand_append_lookup by blast
  have root: "weight (hd (g_nodes t)) = rule_weight (fst (hd (cand_lookup m (hd (g_nodes t)))))
            \<and> (\<forall>e \<in> set m. name (fst e) = start_symbol g \<longrightarrow>
                  rule_weight (fst (hd (snd e))) \<le> weight (hd (g_nodes t)))"
    if t: "choose_parse_tree m g = Some (Inr t)" for t
  proof -
    note s = choose_parse_tree_sound [OF t]
    obtain e0 where e0: "e0 \<in> set m" "hd (g_nodes t) = fst e0" using s by auto
    have "cand_lookup m (hd (g_nodes t)) = snd e0"
      unfolding e0(2) by (rule cand_lookup_entry [OF dist e0(1)])
    then have a: "weight (hd (g_nodes t)) = rule_weight (fst (hd (cand_lookup m (hd (g_nodes t)))))"
      using first e0 by simp
    have b: "rule_weight (fst (hd (snd e))) \<le> weight (hd (g_nodes t))"
      if "e \<in> set m" "name (fst e) = start_symbol g" for e
    proof -
      have "fst e \<in> set (start_nodes m g)" using that by (auto simp: start_nodes_def)
      then have "weight (fst e) \<le> weight (hd (g_nodes t))" using s by blast
      then show ?thesis using first that(1) by simp
    qed
    show ?thesis using a b by blast
  qed
  show ?thesis using eq dist first app root by blast
qed

theorem stored_weight_is_first_rule_witness:
  "get_nonterminal_nodes example_graph three_rule_grammar = Inr three_rule_map
   \<and> distinct (map (\<lambda>e. key (fst e)) three_rule_map)
   \<and> map (\<lambda>e. weight (fst e)) three_rule_map = [5, 7]
   \<and> map (\<lambda>e. map (\<lambda>d. rule_weight (fst d)) (snd e)) three_rule_map = [[5, 9], [7]]
   \<and> map_option (\<lambda>t. hd (g_nodes (projr t))) (choose_parse_tree three_rule_map three_rule_grammar) = Some s_short
   \<and> weight s_short = rule_weight (fst (hd (cand_lookup three_rule_map s_short)))"
proof -
  have run: "get_nonterminal_nodes example_graph three_rule_grammar = Inr three_rule_map"
    by code_simp
  have vals: "map (\<lambda>e. weight (fst e)) three_rule_map = [5, 7]
      \<and> map (\<lambda>e. map (\<lambda>d. rule_weight (fst d)) (snd e)) three_rule_map = [[5, 9], [7]]"
    by code_simp
  have sel: "choose_parse_tree three_rule_map three_rule_grammar
      = Some (Inr \<lparr>g_nodes = [s_short, noun1, verb], g_edges = [(s_short, noun1), (s_short, verb)]\<rparr>)"
    by code_simp
  have "weight (hd (g_nodes \<lparr>g_nodes = [s_short, noun1, verb], g_edges = [(s_short, noun1), (s_short, verb)]\<rparr>))
      = rule_weight (fst (hd (cand_lookup three_rule_map
          (hd (g_nodes \<lparr>g_nodes = [s_short, noun1, verb], g_edges = [(s_short, noun1), (s_short, verb)]\<rparr>)))))"
    using stored_weight_is_first_rule [OF run] sel by blast
  then have "weight s_short = rule_weight (fst (hd (cand_lookup three_rule_map s_short)))"
    by simp
  moreover have "distinct (map (\<lambda>e. key (fst e)) three_rule_map)"
    using stored_weight_is_first_rule [OF run] by blast
  ultimately show ?thesis using run vals sel by simp
qed

end
